theory Spec2Isabelle
  imports Main "HOL-Library.Char_ord" "HOL-Library.List_Lexorder"
begin

section \<open>Strings\<close>

text \<open>
  A JavaScript string is modelled as a \<^typ>\<open>string\<close>: a sequence of code units below 256
  (the Latin-1 range). The operator \<open><\<close> of JavaScript on strings compares code units
  lexicographically, a proper prefix being smaller; this is the order of
  \<^typ>\<open>char list\<close> here. \<open>String.prototype.toLowerCase\<close> maps \<open>A\<close> to \<open>Z\<close> and the
  upper-case letters of Latin-1 (\<open>U+00C0\<close> to \<open>U+00DE\<close>, the multiplication sign
  \<open>U+00D7\<close> apart) to the code unit 32 above, and nothing else in this range.
\<close>

definition lower_char :: "char \<Rightarrow> char" where
  "lower_char c =
     (let n = (of_char c :: int)
      in if (65 \<le> n \<and> n \<le> 90) \<or> (192 \<le> n \<and> n \<le> 222 \<and> n \<noteq> 215)
         then char_of (n + 32) else c)"

definition toLowerCase :: "string \<Rightarrow> string" where
  "toLowerCase s = map lower_char s"

section \<open>Objects and arrays of JavaScript\<close>

text \<open>
  A plain object with string keys is the list of its own properties in the order in
  which \<open>Object.entries\<close>, \<open>Object.keys\<close> and the spread syntax enumerate them: the keys
  that are array indices (canonical decimal numerals up to \<open>2^32 - 2\<close>) first, in
  ascending numeric order, then every other key in the order of its creation. Writing a
  key that exists keeps its place.
\<close>

type_synonym 'v obj = "(string \<times> 'v) list"

definition is_digit :: "char \<Rightarrow> bool" where
  "is_digit c \<longleftrightarrow> 48 \<le> (of_char c :: int) \<and> (of_char c :: int) \<le> 57"

definition index_value :: "string \<Rightarrow> int" where
  "index_value s = foldl (\<lambda>n c. 10 * n + ((of_char c :: int) - 48)) 0 s"

definition is_array_index :: "string \<Rightarrow> bool" where
  "is_array_index s \<longleftrightarrow>
     s \<noteq> [] \<and> list_all is_digit s \<and> (s = ''0'' \<or> hd s \<noteq> CHR ''0'')
     \<and> index_value s \<le> 4294967294"

fun replace_prop :: "string \<Rightarrow> 'v \<Rightarrow> 'v obj \<Rightarrow> 'v obj" where
  "replace_prop k v [] = []"
| "replace_prop k v ((k', v') # ps) =
     (if k' = k then (k, v) # ps else (k', v') # replace_prop k v ps)"

fun insert_index_prop :: "string \<Rightarrow> 'v \<Rightarrow> 'v obj \<Rightarrow> 'v obj" where
  "insert_index_prop k v [] = [(k, v)]"
| "insert_index_prop k v ((k', v') # ps) =
     (if is_array_index k' \<and> index_value k' < index_value k
      then (k', v') # insert_index_prop k v ps
      else (k, v) # (k', v') # ps)"

definition set_prop :: "string \<Rightarrow> 'v \<Rightarrow> 'v obj \<Rightarrow> 'v obj" where
  \<comment> \<open>\<open>o[k] = v\<close> on a plain object, and one property of an object literal or spread\<close>
  "set_prop k v ob =
     (if k \<in> fst ` set ob then replace_prop k v ob
      else if is_array_index k then insert_index_prop k v ob
      else ob @ [(k, v)])"

definition spread :: "'v obj \<Rightarrow> 'v obj \<Rightarrow> 'v obj" where
  \<comment> \<open>\<open>{ ...target, ...source }\<close>: the properties of \<open>source\<close> written onto \<open>target\<close> in order\<close>
  "spread target source = foldl (\<lambda>acc (k, v). set_prop k v acc) target source"

definition Object_entries :: "'v obj \<Rightarrow> (string \<times> 'v) list" where
  "Object_entries ob = ob"

definition Object_fromEntries :: "(string \<times> 'v) list \<Rightarrow> 'v obj" where
  "Object_fromEntries es = spread [] es"

definition Object_keys :: "'v obj \<Rightarrow> string list" where
  "Object_keys ob = map fst ob"

text \<open>
  \<open>Array.prototype.sort\<close> with a comparator: an insertion sort that puts an element
  before the first element of the sorted part for which the comparator is negative, and
  after it otherwise (what V8 does on short arrays). The comparator of this program never
  returns 0, so engines may differ on keys that are equal after lower-casing; on keys
  that are pairwise different after lower-casing every sort gives the same array.
\<close>

fun insort_cmp :: "('a \<Rightarrow> 'a \<Rightarrow> int) \<Rightarrow> 'a \<Rightarrow> 'a list \<Rightarrow> 'a list" where
  "insort_cmp cmp x [] = [x]"
| "insort_cmp cmp x (y # ys) =
     (if cmp x y < 0 then x # y # ys else y # insort_cmp cmp x ys)"

definition array_sort :: "('a \<Rightarrow> 'a \<Rightarrow> int) \<Rightarrow> 'a list \<Rightarrow> 'a list" where
  "array_sort cmp xs = foldl (\<lambda>acc x. insort_cmp cmp x acc) [] xs"

text \<open>A parameter with a default value: the default stands in for an absent argument.\<close>

definition default_arg :: "'a \<Rightarrow> 'a option \<Rightarrow> 'a" where
  "default_arg d arg = (case arg of None \<Rightarrow> d | Some x \<Rightarrow> x)"

section \<open>Data model\<close>

definition AVAILABLE_CONTEXTS :: "string list" where
  "AVAILABLE_CONTEXTS = [''all'', ''production'', ''deploy-preview'', ''branch-deploy'', ''dev'']"

definition AVAILABLE_SCOPES :: "string list" where
  "AVAILABLE_SCOPES = [''builds'', ''functions'', ''runtime'', ''post_processing'']"

text \<open>One value of an environment variable in Envelope; \<open>context_parameter\<close> may be absent.\<close>

record env_value =
  val_context :: string
  val_context_parameter :: "string option"
  val_value :: string

text \<open>One environment variable of Envelope.\<close>

record envelope_item =
  item_key :: string
  item_scopes :: "string list"
  item_values :: "env_value list"

section \<open>Value Selector\<close>

definition findValueInValues :: "env_value list \<Rightarrow> string \<Rightarrow> env_value option" where
  "findValueInValues vals ctx =
     find (\<lambda>val.
       if ctx \<notin> set AVAILABLE_CONTEXTS
       then val_context val \<in> set [''branch'', ''all''] \<and> val_context_parameter val = Some ctx
       else val_context val \<in> set [ctx, ''all'']) vals"

section \<open>Resolved variables, errors and the store client\<close>

text \<open>
  An entry of a resolved mapping. The entries of the locally known mapping carry
  \<open>sources\<close> and \<open>value\<close>; the Formatter fills in all five fields, \<open>branch\<close> being
  the \<open>context_parameter\<close> of the selected value (absent unless the value has one).
\<close>

record env_var =
  var_context :: "string option"
  var_branch :: "string option"
  var_scopes :: "string list option"
  var_sources :: "string list"
  var_value :: string

text \<open>
  Modelled from the spec: the classes of failure of a fetch (the store client is not part
  of the sources): permission denied, network, expired authentication, server error.
\<close>

datatype fetch_error = Forbidden | Network | AuthExpired | ServerError

text \<open>
  What a call can end with instead of a value: a \<open>TypeError\<close> raised by the runtime, or a
  rejection of the store client that reached the caller.
\<close>

datatype error = TypeError | Rejected fetch_error

text \<open>The two operations of the store client that the program calls.\<close>

record api =
  getEnvVar :: "string \<Rightarrow> string \<Rightarrow> string option \<Rightarrow> fetch_error + envelope_item"
  getEnvVars :: "string \<Rightarrow> string option \<Rightarrow> fetch_error + envelope_item list"

datatype api_call =
  Call_getEnvVar string string "string option"
| Call_getEnvVars string "string option"

text \<open>
  What \<open>fetchEnvelopeItems\<close> resolves to: an array of items, or the empty object literal
  \<open>{}\<close> of its first branch.
\<close>

datatype fetched = ItemArray "envelope_item list" | EmptyObject

fun items_of :: "fetched \<Rightarrow> envelope_item list" where
  "items_of (ItemArray its) = its"
| "items_of EmptyObject = []"

record site_info =
  account_slug :: "string option"
  site_id :: "string option"

section \<open>Source Partitioner\<close>

definition first_source_is :: "string \<Rightarrow> env_var \<Rightarrow> bool" where
  \<comment> \<open>\<open>variable.sources[0] === source\<close>; the first element of an empty array is \<open>undefined\<close>\<close>
  "first_source_is source variable =
     (case var_sources variable of [] \<Rightarrow> False | s # _ \<Rightarrow> s = source)"

definition filterEnvBySource :: "env_var obj \<Rightarrow> string \<Rightarrow> env_var obj" where
  "filterEnvBySource env source =
     Object_fromEntries (filter (\<lambda>(k, variable). first_source_is source variable) (Object_entries env))"

section \<open>Fetching from the store\<close>

text \<open>The result is paired with the calls made on the store client, in order.\<close>

definition fetchEnvelopeItems ::
  "string option \<Rightarrow> api \<Rightarrow> string \<Rightarrow> string option \<Rightarrow> api_call list \<times> fetched" where
  "fetchEnvelopeItems accountId client key siteId =
     (case accountId of
        None \<Rightarrow> ([], EmptyObject)
      | Some a \<Rightarrow>
          if key \<noteq> []
          then ([Call_getEnvVar a key siteId],
                case getEnvVar client a key siteId of
                  Inr envelopeItem \<Rightarrow> ItemArray [envelopeItem]
                | Inl e \<Rightarrow> ItemArray [])
          else ([Call_getEnvVars a siteId],
                case getEnvVars client a siteId of
                  Inr envelopeItems \<Rightarrow> ItemArray envelopeItems
                | Inl e \<Rightarrow> ItemArray []))"

text \<open>The call that \<open>fetchEnvelopeItems\<close> makes for this key and site fails with \<open>e\<close>.\<close>

definition fetch_fails :: "api \<Rightarrow> string \<Rightarrow> string \<Rightarrow> string option \<Rightarrow> fetch_error \<Rightarrow> bool" where
  "fetch_fails client a key siteId e \<longleftrightarrow>
     (if key \<noteq> [] then getEnvVar client a key siteId = Inl e
      else getEnvVars client a siteId = Inl e)"

section \<open>Scoped-Record Formatter\<close>

definition compare_keys :: "envelope_item \<Rightarrow> envelope_item \<Rightarrow> int" where
  "compare_keys left right =
     (if toLowerCase (item_key left) < toLowerCase (item_key right) then - 1 else 1)"

definition lower_key :: "envelope_item \<Rightarrow> string" where
  \<comment> \<open>what the comparator compares\<close>
  "lower_key it = toLowerCase (item_key it)"

fun reduce :: "('b \<Rightarrow> 'a \<Rightarrow> error + 'b) \<Rightarrow> 'b \<Rightarrow> 'a list \<Rightarrow> error + 'b" where
  "reduce f acc [] = Inr acc"
| "reduce f acc (x # xs) = (case f acc x of Inl e \<Rightarrow> Inl e | Inr acc' \<Rightarrow> reduce f acc' xs)"

definition format_step ::
  "string \<Rightarrow> string \<Rightarrow> env_var obj \<Rightarrow> envelope_item \<Rightarrow> error + env_var obj" where
  \<comment> \<open>the callback of \<open>reduce\<close>; destructuring \<open>undefined\<close> raises a \<open>TypeError\<close>\<close>
  "format_step ctx source acc cur =
     (case findValueInValues (item_values cur) ctx of
        None \<Rightarrow> Inl TypeError
      | Some val \<Rightarrow>
          Inr (set_prop (item_key cur)
                 \<lparr>var_context = Some (val_context val),
                  var_branch = val_context_parameter val,
                  var_scopes = Some (item_scopes cur),
                  var_sources = [source],
                  var_value = val_value val\<rparr>
                 (spread [] acc)))"

definition formatEnvelopeData ::
  "string option \<Rightarrow> fetched option \<Rightarrow> string option \<Rightarrow> string \<Rightarrow> error + env_var obj" where
  \<comment> \<open>an absent argument takes its default; \<open>filter\<close> is not a function of \<open>{}\<close>\<close>
  "formatEnvelopeData context_arg envelopeItems_arg scope_arg source =
     (let ctx = default_arg ''dev'' context_arg;
          envelopeItems = default_arg (ItemArray []) envelopeItems_arg;
          scope = default_arg ''any'' scope_arg
      in case envelopeItems of
           EmptyObject \<Rightarrow> Inl TypeError
         | ItemArray its \<Rightarrow>
             reduce (format_step ctx source) []
               (array_sort compare_keys
                 (filter (\<lambda>it. scope = ''any'' \<or> scope \<in> set (item_scopes it))
                   (filter (\<lambda>it. findValueInValues (item_values it) ctx \<noteq> None) its))))"

section \<open>Precedence Merger\<close>

definition getEnvelopeEnv ::
  "api \<Rightarrow> string option \<Rightarrow> env_var obj \<Rightarrow> string option \<Rightarrow> string option \<Rightarrow> site_info
     \<Rightarrow> api_call list \<times> (error + env_var obj)" where
  "getEnvelopeEnv client context_arg env key_arg scope_arg siteInfo =
     (let ctx = default_arg ''dev'' context_arg;
          key = default_arg [] key_arg;
          scope = default_arg ''any'' scope_arg;
          accountId = account_slug siteInfo;
          siteId = site_id siteInfo;
          (calls1, accountEnvelopeItems) = fetchEnvelopeItems accountId client key None;
          (calls2, siteEnvelopeItems) = fetchEnvelopeItems accountId client key siteId
      in (calls1 @ calls2,
          case formatEnvelopeData (Some ctx) (Some accountEnvelopeItems) (Some scope) ''account'' of
            Inl e \<Rightarrow> Inl e
          | Inr accountEnv \<Rightarrow>
             (case formatEnvelopeData (Some ctx) (Some siteEnvelopeItems) (Some scope) ''ui'' of
                Inl e \<Rightarrow> Inl e
              | Inr siteEnv \<Rightarrow>
                  let generalEnv = filterEnvBySource env ''general'';
                      addonsEnv = filterEnvBySource env ''addons'';
                      configFileEnv = filterEnvBySource env ''configFile'';
                      includeConfigEnvVars = (scope \<in> set [''any'', ''builds'', ''post_processing''])
                  in Inr (spread (spread (spread (spread (spread [] generalEnv) accountEnv)
                            (if includeConfigEnvVars then addonsEnv else []))
                            siteEnv)
                            (if includeConfigEnvVars then configFileEnv else [])))))"

section \<open>Reading a property of an object literal\<close>

text \<open>
  An object literal inherits from \<open>Object.prototype\<close>, so \<open>name in literal\<close> and
  \<open>literal[name]\<close> also see the members of the prototype.
\<close>

definition Object_prototype_keys :: "string list" where
  "Object_prototype_keys =
     [''constructor'', ''__defineGetter__'', ''__defineSetter__'', ''hasOwnProperty'',
      ''__lookupGetter__'', ''__lookupSetter__'', ''isPrototypeOf'', ''propertyIsEnumerable'',
      ''toString'', ''valueOf'', ''__proto__'', ''toLocaleString'']"

datatype 'v property = Own 'v | Inherited | Undefined

definition get_prop :: "'v obj \<Rightarrow> string \<Rightarrow> 'v property" where
  "get_prop ob k =
     (case map_of ob k of
        Some v \<Rightarrow> Own v
      | None \<Rightarrow> if k \<in> set Object_prototype_keys then Inherited else Undefined)"

section \<open>Context Normalizer\<close>

definition CONTEXT_SYNONYMS :: "string obj" where
  "CONTEXT_SYNONYMS = [(''dp'', ''deploy-preview''), (''prod'', ''production'')]"

definition strip_branch_prefix :: "string \<Rightarrow> string" where
  \<comment> \<open>\<open>context.replace(/^branch:/, '')\<close>\<close>
  "strip_branch_prefix s = (if take 7 s = ''branch:'' then drop 7 s else s)"

definition normalizeContext :: "string option \<Rightarrow> error + string option" where
  \<comment> \<open>a member of the prototype has no method \<open>replace\<close>: calling it raises a \<open>TypeError\<close>\<close>
  "normalizeContext context_arg =
     (case context_arg of
        None \<Rightarrow> Inr None
      | Some c \<Rightarrow>
          if c = [] then Inr (Some c)
          else (case get_prop CONTEXT_SYNONYMS c of
                  Own synonym \<Rightarrow> Inr (Some (strip_branch_prefix synonym))
                | Inherited \<Rightarrow> Inl TypeError
                | Undefined \<Rightarrow> Inr (Some (strip_branch_prefix c))))"

section \<open>Scope Humanizer\<close>

definition HUMAN_SCOPES :: "string obj" where
  "HUMAN_SCOPES =
     [(''builds'', ''Builds''), (''functions'', ''Functions''),
      (''post_processing'', ''Post processing''), (''runtime'', ''Runtime'')]"

fun join_strings :: "string \<Rightarrow> string list \<Rightarrow> string" where
  "join_strings sep [] = []"
| "join_strings sep [s] = s"
| "join_strings sep (s # t # ss) = s @ sep @ join_strings sep (t # ss)"

definition join :: "string \<Rightarrow> string property list \<Rightarrow> string option" where
  \<comment> \<open>\<open>Array.prototype.join\<close>: \<open>undefined\<close> is written as the empty string; the text of a
      member of the prototype is the engine's own, given here as \<open>None\<close>\<close>
  "join sep ps =
     (if Inherited \<in> set ps then None
      else Some (join_strings sep (map (\<lambda>p. case p of Own s \<Rightarrow> s | _ \<Rightarrow> []) ps)))"

definition getHumanReadableScopes :: "string list option \<Rightarrow> string option" where
  "getHumanReadableScopes scopes_arg =
     (case scopes_arg of
        None \<Rightarrow> Some ''Builds, Post processing''
      | Some scopes \<Rightarrow>
          if length scopes = length (Object_keys HUMAN_SCOPES) then Some ''All''
          else join '', '' (map (get_prop HUMAN_SCOPES) scopes))"

text \<open>
  The Scope Humanizer as the specification words it, to compare with the function above:
  \<open>undefined\<close> gives \<open>Builds, Post processing\<close>, the full set of scopes gives \<open>All\<close>, any
  other set gives the labels of its members in the order of \<open>AVAILABLE_SCOPES\<close>.
\<close>

definition humanizeScopes_spec :: "string list option \<Rightarrow> string option" where
  "humanizeScopes_spec scopes_arg =
     (case scopes_arg of
        None \<Rightarrow> Some ''Builds, Post processing''
      | Some scopes \<Rightarrow>
          if set scopes = set AVAILABLE_SCOPES then Some ''All''
          else join '', '' (map (get_prop HUMAN_SCOPES)
                 (filter (\<lambda>scope. scope \<in> set scopes) AVAILABLE_SCOPES)))"

section \<open>Legacy Translators\<close>

definition translateFromMongoToEnvelope :: "string obj option \<Rightarrow> envelope_item list" where
  "translateFromMongoToEnvelope env_arg =
     (let env = default_arg [] env_arg
      in map (\<lambda>(key, val).
                \<lparr>item_key = key,
                 item_scopes = AVAILABLE_SCOPES,
                 item_values = [\<lparr>val_context = ''all'', val_context_parameter = None,
                                 val_value = val\<rparr>]\<rparr>)
           (Object_entries env))"

definition parameter_or_context :: "env_value \<Rightarrow> string" where
  \<comment> \<open>\<open>val.context_parameter || val.context\<close>: an absent or empty parameter is falsy\<close>
  "parameter_or_context val =
     (case val_context_parameter val of
        None \<Rightarrow> val_context val
      | Some p \<Rightarrow> if p = [] then val_context val else p)"

definition mongo_step :: "string \<Rightarrow> string obj \<Rightarrow> envelope_item \<Rightarrow> string obj" where
  \<comment> \<open>the callback of \<open>reduce\<close>; an empty \<open>value\<close> is falsy\<close>
  "mongo_step ctx acc cur =
     (case find (\<lambda>val. parameter_or_context val \<in> set [ctx, ''all'']) (item_values cur) of
        None \<Rightarrow> acc
      | Some envVar \<Rightarrow>
          if val_value envVar \<noteq> []
          then set_prop (item_key cur) (val_value envVar) (spread [] acc)
          else acc)"

definition translateFromEnvelopeToMongo ::
  "envelope_item list option \<Rightarrow> string option \<Rightarrow> string obj" where
  "translateFromEnvelopeToMongo envVars_arg context_arg =
     (let envVars = default_arg [] envVars_arg;
          ctx = default_arg ''dev'' context_arg
      in foldl (mongo_step ctx) [] (array_sort compare_keys envVars))"

section \<open>Example data\<close>

definition item_with :: "string \<Rightarrow> string \<Rightarrow> string \<Rightarrow> envelope_item" where
  \<comment> \<open>an item visible in every scope, with one value tagged \<open>tag\<close>\<close>
  "item_with key tag val =
     \<lparr>item_key = key, item_scopes = AVAILABLE_SCOPES,
      item_values = [\<lparr>val_context = tag, val_context_parameter = None, val_value = val\<rparr>]\<rparr>"

definition branch_item :: "string \<Rightarrow> string \<Rightarrow> string \<Rightarrow> envelope_item" where
  \<comment> \<open>an item visible in every scope, with one value for the branch \<open>branch\<close>\<close>
  "branch_item key branch val =
     \<lparr>item_key = key, item_scopes = AVAILABLE_SCOPES,
      item_values = [\<lparr>val_context = ''branch'', val_context_parameter = Some branch,
                      val_value = val\<rparr>]\<rparr>"

definition local_var :: "string \<Rightarrow> string \<Rightarrow> env_var" where
  \<comment> \<open>an entry of the locally known mapping\<close>
  "local_var source val =
     \<lparr>var_context = None, var_branch = None, var_scopes = None,
      var_sources = [source], var_value = val\<rparr>"

definition static_api :: "envelope_item list \<Rightarrow> envelope_item list \<Rightarrow> api" where
  \<comment> \<open>a store holding the given account-level and site-level items\<close>
  "static_api accountItems siteItems =
     \<lparr>getEnvVar = (\<lambda>a k sid.
        case find (\<lambda>it. item_key it = k) (case sid of None \<Rightarrow> accountItems | Some s \<Rightarrow> siteItems) of
          None \<Rightarrow> Inl ServerError
        | Some it \<Rightarrow> Inr it),
      getEnvVars = (\<lambda>a sid. Inr (case sid of None \<Rightarrow> accountItems | Some s \<Rightarrow> siteItems))\<rparr>"

definition failing_api :: "fetch_error \<Rightarrow> api" where
  \<comment> \<open>a store of which every call fails with the given error\<close>
  "failing_api e = \<lparr>getEnvVar = (\<lambda>a k sid. Inl e), getEnvVars = (\<lambda>a sid. Inl e)\<rparr>"

definition account_failing_api :: "fetch_error \<Rightarrow> envelope_item list \<Rightarrow> api" where
  \<comment> \<open>a store of which the account-level calls fail and the site-level calls succeed\<close>
  "account_failing_api e siteItems =
     \<lparr>getEnvVar = (\<lambda>a k sid.
        case sid of
          None \<Rightarrow> Inl e
        | Some s \<Rightarrow> (case find (\<lambda>it. item_key it = k) siteItems of
                      None \<Rightarrow> Inl ServerError
                    | Some it \<Rightarrow> Inr it)),
      getEnvVars = (\<lambda>a sid. case sid of None \<Rightarrow> Inl e | Some s \<Rightarrow> Inr siteItems)\<rparr>"

definition example_site :: site_info where
  "example_site = \<lparr>account_slug = Some ''acct'', site_id = Some ''site''\<rparr>"

section \<open>Properties of objects\<close>

lemma replace_prop_absent: "k \<notin> fst ` set ob \<Longrightarrow> replace_prop k v ob = ob"
  by (induction ob) auto

lemma map_of_replace_prop:
  "k \<in> fst ` set ob \<Longrightarrow> map_of (replace_prop k v ob) = (map_of ob)(k \<mapsto> v)"
proof (induction ob)
  case Nil
  then show ?case by simp
next
  case (Cons p ps)
  obtain k' v' where p: "p = (k', v')" by (cases p)
  show ?case
  proof (cases "k' = k")
    case True
    then show ?thesis by (simp add: p fun_eq_iff)
  next
    case False
    with Cons.prems have "k \<in> fst ` set ps" by (auto simp: p)
    with Cons.IH False show ?thesis by (simp add: p fun_eq_iff)
  qed
qed

lemma keys_replace_prop: "map fst (replace_prop k v ob) = map fst ob"
  by (induction ob) auto

lemma set_insert_index_prop: "set (insert_index_prop k v ob) = insert (k, v) (set ob)"
proof (induction ob)
  case Nil
  show ?case by simp
next
  case (Cons p ps)
  obtain k' v' where p: "p = (k', v')" by (cases p)
  show ?case
  proof (cases "is_array_index k' \<and> index_value k' < index_value k")
    case True
    with Cons.IH show ?thesis by (simp add: p insert_commute)
  next
    case False
    then show ?thesis by (auto simp: p)
  qed
qed

lemma map_of_insert_index_prop:
  "k \<notin> fst ` set ob \<Longrightarrow> map_of (insert_index_prop k v ob) = (map_of ob)(k \<mapsto> v)"
proof (induction ob)
  case Nil
  show ?case by simp
next
  case (Cons p ps)
  obtain k' v' where p: "p = (k', v')" by (cases p)
  from Cons.prems have ne: "k' \<noteq> k" and notin: "k \<notin> fst ` set ps" by (auto simp: p)
  show ?case
  proof (cases "is_array_index k' \<and> index_value k' < index_value k")
    case True
    with Cons.IH [OF notin] ne show ?thesis by (simp add: p fun_eq_iff)
  next
    case False
    then show ?thesis by (auto simp: p fun_eq_iff)
  qed
qed

lemma distinct_insert_index_prop:
  "k \<notin> fst ` set ob \<Longrightarrow> distinct (map fst ob) \<Longrightarrow> distinct (map fst (insert_index_prop k v ob))"
proof (induction ob)
  case Nil
  show ?case by simp
next
  case (Cons p ps)
  obtain k' v' where p: "p = (k', v')" by (cases p)
  from Cons.prems have ne: "k' \<noteq> k" and notin: "k \<notin> fst ` set ps"
    and d: "distinct (map fst ps)" and k': "k' \<notin> fst ` set ps" by (auto simp: p)
  show ?case
  proof (cases "is_array_index k' \<and> index_value k' < index_value k")
    case True
    with Cons.IH [OF notin d] ne k' show ?thesis
      by (simp add: p set_insert_index_prop)
  next
    case False
    with Cons.prems show ?thesis by (auto simp: p)
  qed
qed

lemma map_of_set_prop: "map_of (set_prop k v ob) = (map_of ob)(k \<mapsto> v)"
proof (cases "k \<in> fst ` set ob")
  case True
  then show ?thesis by (simp add: set_prop_def map_of_replace_prop)
next
  case False
  then have none: "map_of ob k = None" by (simp add: map_of_eq_None_iff)
  show ?thesis
  proof (cases "is_array_index k")
    case True
    with False show ?thesis by (simp add: set_prop_def map_of_insert_index_prop)
  next
    case idx: False
    have "map_of (ob @ [(k, v)]) = (map_of ob)(k \<mapsto> v)"
      using none by (auto simp: fun_eq_iff map_add_def split: option.splits)
    with False idx show ?thesis by (simp add: set_prop_def)
  qed
qed

lemma keys_set_prop: "fst ` set (set_prop k v ob) = insert k (fst ` set ob)"
proof -
  have "fst ` set (replace_prop k v ob) = set (map fst (replace_prop k v ob))" by simp
  then have "fst ` set (replace_prop k v ob) = fst ` set ob" by (simp add: keys_replace_prop)
  then show ?thesis
    by (auto simp: set_prop_def set_insert_index_prop)
qed

lemma distinct_set_prop:
  "distinct (map fst ob) \<Longrightarrow> distinct (map fst (set_prop k v ob))"
  by (auto simp: set_prop_def keys_replace_prop distinct_insert_index_prop)

lemma set_set_prop_new:
  "k \<notin> fst ` set ob \<Longrightarrow> set (set_prop k v ob) = insert (k, v) (set ob)"
  by (auto simp: set_prop_def set_insert_index_prop)

lemma map_of_spread_rev: "map_of (spread target source) = map_of target ++ map_of (rev source)"
proof (induction source arbitrary: target)
  case Nil
  show ?case by (simp add: spread_def)
next
  case (Cons p ps)
  obtain k v where p: "p = (k, v)" by (cases p)
  have "spread target (p # ps) = spread (set_prop k v target) ps"
    by (simp add: spread_def p)
  then show ?case
    using Cons.IH [of "set_prop k v target"]
    by (simp add: p map_of_set_prop fun_eq_iff map_add_def split: option.splits)
qed

lemma map_of_rev_distinct: "distinct (map fst ps) \<Longrightarrow> map_of (rev ps) = map_of ps"
  by (rule map_of_inject_set [THEN iffD2]) (simp_all add: rev_map [symmetric] )

lemma map_of_spread:
  "distinct (map fst source) \<Longrightarrow> map_of (spread target source) = map_of target ++ map_of source"
  by (simp add: map_of_spread_rev map_of_rev_distinct)

lemma distinct_spread:
  "distinct (map fst target) \<Longrightarrow> distinct (map fst (spread target source))"
proof (induction source arbitrary: target)
  case Nil
  then show ?case by (simp add: spread_def)
next
  case (Cons p ps)
  obtain k v where p: "p = (k, v)" by (cases p)
  have "spread target (p # ps) = spread (set_prop k v target) ps"
    by (simp add: spread_def p)
  then show ?case
    using Cons.IH [of "set_prop k v target"] Cons.prems by (simp add: distinct_set_prop)
qed

lemma keys_spread: "fst ` set (spread target source) = fst ` set target \<union> fst ` set source"
proof (induction source arbitrary: target)
  case Nil
  show ?case by (simp add: spread_def)
next
  case (Cons p ps)
  obtain k v where p: "p = (k, v)" by (cases p)
  have "spread target (p # ps) = spread (set_prop k v target) ps"
    by (simp add: spread_def p)
  then show ?case
    using Cons.IH [of "set_prop k v target"] by (auto simp: p keys_set_prop)
qed

lemma map_of_spread_empty:
  "distinct (map fst ob) \<Longrightarrow> map_of (spread [] ob) = map_of ob"
  by (simp add: map_of_spread)

section \<open>Properties of the Value Selector\<close>

lemma findValueInValues_enumerated:
  assumes "ctx \<in> set AVAILABLE_CONTEXTS" and "v \<in> set vals" and "val_context v = ''all''"
  shows "findValueInValues vals ctx \<noteq> None"
  using assms by (auto simp: findValueInValues_def find_None_iff)

lemma findValueInValues_branch_needs_parameter:
  assumes "ctx \<notin> set AVAILABLE_CONTEXTS"
    and "\<forall>v \<in> set vals. val_context_parameter v \<noteq> Some ctx"
  shows "findValueInValues vals ctx = None"
  using assms by (auto simp: findValueInValues_def find_None_iff)

text \<open>
  Claim C4. An item whose only value is tagged \<open>all\<close> (with no \<open>context_parameter\<close>, as
  the values tagged \<open>all\<close> are) has no value for the branch name \<open>staging\<close>: on a name that is
  not an enumerated context the selector also requires \<open>context_parameter\<close> to equal the
  name, so the fallback \<open>all\<close> never applies there.
\<close>

theorem findValueInValues_all_not_found_for_branch:
  "findValueInValues
     [\<lparr>val_context = ''all'', val_context_parameter = None, val_value = ''v''\<rparr>] ''staging''
   = None"
  by (simp add: findValueInValues_def AVAILABLE_CONTEXTS_def)

section \<open>Properties of sorting, formatting and partitioning\<close>

lemma default_arg_simps [simp]: "default_arg d None = d" "default_arg d (Some x) = x"
  by (simp_all add: default_arg_def)

lemma set_insort_cmp: "set (insort_cmp cmp x ys) = insert x (set ys)"
  by (induction ys) auto

lemma set_foldl_insort_cmp:
  "set (foldl (\<lambda>acc x. insort_cmp cmp x acc) acc xs) = set acc \<union> set xs"
  by (induction xs arbitrary: acc) (auto simp: set_insort_cmp)

lemma set_array_sort: "set (array_sort cmp xs) = set xs"
  by (simp add: array_sort_def set_foldl_insort_cmp)

lemma distinct_map_insort_cmp:
  "distinct (map f (insort_cmp cmp x ys)) \<longleftrightarrow> f x \<notin> f ` set ys \<and> distinct (map f ys)"
  by (induction ys) (auto simp: set_insort_cmp)

lemma distinct_map_foldl_insort_cmp:
  "distinct (map f (foldl (\<lambda>acc x. insort_cmp cmp x acc) acc xs)) \<longleftrightarrow> distinct (map f (acc @ xs))"
proof (induction xs arbitrary: acc)
  case Nil
  show ?case by simp
next
  case (Cons x xs)
  show ?case
    by (simp add: Cons.IH distinct_map_insort_cmp set_insort_cmp) blast
qed

lemma distinct_map_array_sort:
  "distinct (map f (array_sort cmp xs)) \<longleftrightarrow> distinct (map f xs)"
  by (simp add: array_sort_def distinct_map_foldl_insort_cmp)

lemma reduce_format_step:
  assumes "\<forall>it \<in> set its. findValueInValues (item_values it) ctx \<noteq> None"
    and "distinct (map fst acc)"
  shows "\<exists>r. reduce (format_step ctx source) acc its = Inr r \<and> distinct (map fst r)
           \<and> fst ` set r = fst ` set acc \<union> item_key ` set its"
  using assms
proof (induction its arbitrary: acc)
  case Nil
  then show ?case by simp
next
  case (Cons it its)
  from Cons.prems obtain val where val: "findValueInValues (item_values it) ctx = Some val"
    by auto
  define acc' where "acc' = set_prop (item_key it)
     \<lparr>var_context = Some (val_context val), var_branch = val_context_parameter val,
      var_scopes = Some (item_scopes it), var_sources = [source], var_value = val_value val\<rparr>
     (spread [] acc)"
  have step: "format_step ctx source acc it = Inr acc'"
    by (simp add: format_step_def val acc'_def)
  have d: "distinct (map fst acc')"
    unfolding acc'_def by (intro distinct_set_prop distinct_spread) simp
  have keys: "fst ` set acc' = insert (item_key it) (fst ` set acc)"
    unfolding acc'_def by (simp add: keys_set_prop keys_spread)
  from Cons.prems have "\<forall>it \<in> set its. findValueInValues (item_values it) ctx \<noteq> None" by simp
  from Cons.IH [OF this d] obtain r where
    "reduce (format_step ctx source) acc' its = Inr r" "distinct (map fst r)"
    "fst ` set r = fst ` set acc' \<union> item_key ` set its" by blast
  then show ?case by (auto simp: step keys)
qed

lemma formatEnvelopeData_ItemArray:
  "\<exists>r. formatEnvelopeData context_arg (Some (ItemArray its)) scope_arg source = Inr r
       \<and> distinct (map fst r) \<and> fst ` set r \<subseteq> item_key ` set its"
proof -
  define ctx where "ctx = default_arg ''dev'' context_arg"
  define scope where "scope = default_arg ''any'' scope_arg"
  define sorted where "sorted = array_sort compare_keys
     (filter (\<lambda>it. scope = ''any'' \<or> scope \<in> set (item_scopes it))
       (filter (\<lambda>it. findValueInValues (item_values it) ctx \<noteq> None) its))"
  have eq: "formatEnvelopeData context_arg (Some (ItemArray its)) scope_arg source
      = reduce (format_step ctx source) [] sorted"
    by (simp add: formatEnvelopeData_def Let_def ctx_def scope_def sorted_def)
  have all: "\<forall>it \<in> set sorted. findValueInValues (item_values it) ctx \<noteq> None"
    by (simp add: sorted_def set_array_sort)
  have sub: "set sorted \<subseteq> set its"
    by (auto simp: sorted_def set_array_sort)
  from reduce_format_step [OF all, of "[]" source] obtain r where
    "reduce (format_step ctx source) [] sorted = Inr r" "distinct (map fst r)"
    "fst ` set r = item_key ` set sorted" by auto
  with sub eq show ?thesis by auto
qed

lemma fetchEnvelopeItems_defined:
  "\<exists>its. snd (fetchEnvelopeItems (Some a) client key sid) = ItemArray its"
  by (simp add: fetchEnvelopeItems_def split: sum.splits)

lemma map_of_filter_values:
  "distinct (map fst env) \<Longrightarrow>
   map_of (filter (\<lambda>(k, v). P v) env) k
     = (case map_of env k of None \<Rightarrow> None | Some v \<Rightarrow> if P v then Some v else None)"
proof (induction env)
  case Nil
  show ?case by simp
next
  case (Cons p ps)
  obtain k' v' where p: "p = (k', v')" by (cases p)
  from Cons.prems have notin: "k' \<notin> fst ` set ps" by (simp add: p)
  then have "map_of ps k' = None" by (simp add: map_of_eq_None_iff)
  moreover from notin have "map_of (filter (\<lambda>(k, v). P v) ps) k' = None"
    by (auto simp: map_of_eq_None_iff)
  ultimately show ?case using Cons by (simp add: p)
qed

lemma distinct_filterEnvBySource:
  "distinct (map fst env) \<Longrightarrow> distinct (map fst (filterEnvBySource env source))"
  by (simp add: filterEnvBySource_def Object_fromEntries_def distinct_spread)

lemma map_of_filterEnvBySource:
  assumes "distinct (map fst env)"
  shows "map_of (filterEnvBySource env source) k
     = (case map_of env k of None \<Rightarrow> None
        | Some v \<Rightarrow> if first_source_is source v then Some v else None)"
proof -
  have "distinct (map fst (filter (\<lambda>(k, variable). first_source_is source variable) env))"
    using assms by (simp add: distinct_map_filter)
  then show ?thesis
    using assms
    by (simp add: filterEnvBySource_def Object_fromEntries_def Object_entries_def
        map_of_spread_empty map_of_filter_values)
qed

section \<open>Properties of the Precedence Merger\<close>

lemma getEnvelopeEnv_undefined_account:
  "account_slug siteInfo = None \<Longrightarrow>
   getEnvelopeEnv client context_arg env key_arg scope_arg siteInfo = ([], Inl TypeError)"
  by (simp add: getEnvelopeEnv_def fetchEnvelopeItems_def formatEnvelopeData_def Let_def)

lemma getEnvelopeEnv_layers:
  fixes context_arg key_arg scope_arg :: "string option" and client :: api
    and siteInfo :: site_info and a :: string
  assumes acct: "account_slug siteInfo = Some a" and d: "distinct (map fst env)"
  defines "ctx \<equiv> default_arg ''dev'' context_arg"
    and "key \<equiv> default_arg [] key_arg"
    and "scope \<equiv> default_arg ''any'' scope_arg"
  defines "accountItems \<equiv> snd (fetchEnvelopeItems (Some a) client key None)"
    and "siteItems \<equiv> snd (fetchEnvelopeItems (Some a) client key (site_id siteInfo))"
  shows "\<exists>accountEnv siteEnv r.
      formatEnvelopeData (Some ctx) (Some accountItems) (Some scope) ''account'' = Inr accountEnv
    \<and> formatEnvelopeData (Some ctx) (Some siteItems) (Some scope) ''ui'' = Inr siteEnv
    \<and> fst ` set accountEnv \<subseteq> item_key ` set (items_of accountItems)
    \<and> fst ` set siteEnv \<subseteq> item_key ` set (items_of siteItems)
    \<and> snd (getEnvelopeEnv client context_arg env key_arg scope_arg siteInfo) = Inr r
    \<and> map_of r =
        map_of (filterEnvBySource env ''general'') ++ map_of accountEnv
        ++ (if scope \<in> set [''any'', ''builds'', ''post_processing'']
            then map_of (filterEnvBySource env ''addons'') else Map.empty)
        ++ map_of siteEnv
        ++ (if scope \<in> set [''any'', ''builds'', ''post_processing'']
            then map_of (filterEnvBySource env ''configFile'') else Map.empty)"
proof -
  obtain xs where xs: "accountItems = ItemArray xs"
    unfolding accountItems_def using fetchEnvelopeItems_defined by blast
  obtain ys where ys: "siteItems = ItemArray ys"
    unfolding siteItems_def using fetchEnvelopeItems_defined by blast
  from formatEnvelopeData_ItemArray [of "Some ctx" xs "Some scope" "''account''"]
  obtain accountEnv where
    ae: "formatEnvelopeData (Some ctx) (Some (ItemArray xs)) (Some scope) ''account'' = Inr accountEnv"
    and ad: "distinct (map fst accountEnv)" and ak: "fst ` set accountEnv \<subseteq> item_key ` set xs"
    by blast
  from formatEnvelopeData_ItemArray [of "Some ctx" ys "Some scope" "''ui''"]
  obtain siteEnv where
    se: "formatEnvelopeData (Some ctx) (Some (ItemArray ys)) (Some scope) ''ui'' = Inr siteEnv"
    and sd: "distinct (map fst siteEnv)" and sk: "fst ` set siteEnv \<subseteq> item_key ` set ys"
    by blast
  define incl where "incl \<longleftrightarrow> scope \<in> set [''any'', ''builds'', ''post_processing'']"
  define r where "r =
     spread (spread (spread (spread (spread [] (filterEnvBySource env ''general'')) accountEnv)
       (if incl then filterEnvBySource env ''addons'' else [])) siteEnv)
       (if incl then filterEnvBySource env ''configFile'' else [])"
  have res: "snd (getEnvelopeEnv client context_arg env key_arg scope_arg siteInfo) = Inr r"
    using ae se xs ys
    by (simp add: getEnvelopeEnv_def Let_def acct split_beta r_def incl_def
        ctx_def key_def scope_def accountItems_def siteItems_def)
  have m: "map_of r =
        map_of (filterEnvBySource env ''general'') ++ map_of accountEnv
        ++ (if incl then map_of (filterEnvBySource env ''addons'') else Map.empty)
        ++ map_of siteEnv
        ++ (if incl then map_of (filterEnvBySource env ''configFile'') else Map.empty)"
    unfolding r_def using d ad sd
    by (simp add: map_of_spread distinct_filterEnvBySource)
  show ?thesis
    using ae se ak sk res m unfolding incl_def xs ys by auto
qed

lemma getEnvelopeEnv_defined_account:
  assumes "account_slug siteInfo = Some a"
  shows "\<exists>r. snd (getEnvelopeEnv client context_arg env key_arg scope_arg siteInfo) = Inr r"
proof -
  define ctx where "ctx = default_arg ''dev'' context_arg"
  define key where "key = default_arg [] key_arg"
  define scope where "scope = default_arg ''any'' scope_arg"
  obtain xs where xs: "snd (fetchEnvelopeItems (Some a) client key None) = ItemArray xs"
    using fetchEnvelopeItems_defined by blast
  obtain ys where ys: "snd (fetchEnvelopeItems (Some a) client key (site_id siteInfo)) = ItemArray ys"
    using fetchEnvelopeItems_defined by blast
  obtain accountEnv where
    ae: "formatEnvelopeData (Some ctx) (Some (ItemArray xs)) (Some scope) ''account'' = Inr accountEnv"
    using formatEnvelopeData_ItemArray by blast
  obtain siteEnv where
    se: "formatEnvelopeData (Some ctx) (Some (ItemArray ys)) (Some scope) ''ui'' = Inr siteEnv"
    using formatEnvelopeData_ItemArray by blast
  show ?thesis
    using ae se xs ys
    by (simp add: getEnvelopeEnv_def Let_def assms split_beta ctx_def key_def scope_def)
qed

text \<open>
  Claim C2. With an undefined account identifier no call is made on the store client, but
  the resolution does not return the local sources: \<open>fetchEnvelopeItems\<close> answers with
  the object \<open>{}\<close>, on which the Formatter calls \<open>filter\<close>, and the resolution ends with a
  \<open>TypeError\<close>, whatever the other arguments are.
\<close>

theorem getEnvelopeEnv_undefined_account_TypeError:
  "getEnvelopeEnv client context_arg env key_arg scope_arg \<lparr>account_slug = None, site_id = sid\<rparr>
   = ([], Inl TypeError)"
  by (simp add: getEnvelopeEnv_undefined_account)

text \<open>
  Claim C3, as stated, fails: a store of which every call fails with a network error does
  not make the resolution fail; the failure is swallowed like a permission failure, and
  the local source is returned.
\<close>

theorem network_failure_not_propagated:
  "snd (getEnvelopeEnv (failing_api Network) None [(''A'', local_var ''general'' ''1'')] None None
         example_site)
     = Inr [(''A'', local_var ''general'' ''1'')]
   \<and> snd (getEnvelopeEnv (failing_api Network) None [(''A'', local_var ''general'' ''1'')] None None
         example_site)
     \<noteq> Inl (Rejected Network)"
  by code_simp

lemma formatEnvelopeData_no_items:
  "formatEnvelopeData context_arg (Some (ItemArray [])) scope_arg source = Inr []"
  by (simp add: formatEnvelopeData_def Let_def array_sort_def)

lemma fetchEnvelopeItems_fails:
  "fetch_fails client a key sid e \<Longrightarrow>
   snd (fetchEnvelopeItems (Some a) client key sid) = ItemArray []"
  by (simp add: fetch_fails_def fetchEnvelopeItems_def split: if_splits)

text \<open>
  Claim C3, amended. With a defined account identifier the resolution returns the layering
  of the local buckets and the formatted account and site items, whatever the fetches do:
  a fetch that fails, with an error of any class, yields the empty array and so an empty
  layer, and the other sources are merged as usual. No failure of a fetch reaches the
  caller.
\<close>

theorem fetch_failure_swallowed:
  fixes context_arg key_arg scope_arg :: "string option" and client :: api
    and siteInfo :: site_info and a :: string
  assumes "account_slug siteInfo = Some a" and "distinct (map fst env)"
  defines "ctx \<equiv> default_arg ''dev'' context_arg"
    and "key \<equiv> default_arg [] key_arg"
    and "scope \<equiv> default_arg ''any'' scope_arg"
  shows "\<exists>accountEnv siteEnv r.
      formatEnvelopeData (Some ctx) (Some (snd (fetchEnvelopeItems (Some a) client key None)))
        (Some scope) ''account'' = Inr accountEnv
    \<and> formatEnvelopeData (Some ctx)
        (Some (snd (fetchEnvelopeItems (Some a) client key (site_id siteInfo))))
        (Some scope) ''ui'' = Inr siteEnv
    \<and> snd (getEnvelopeEnv client context_arg env key_arg scope_arg siteInfo) = Inr r
    \<and> map_of r =
        map_of (filterEnvBySource env ''general'') ++ map_of accountEnv
        ++ (if scope \<in> set [''any'', ''builds'', ''post_processing'']
            then map_of (filterEnvBySource env ''addons'') else Map.empty)
        ++ map_of siteEnv
        ++ (if scope \<in> set [''any'', ''builds'', ''post_processing'']
            then map_of (filterEnvBySource env ''configFile'') else Map.empty)
    \<and> (fetch_fails client a key None e \<longrightarrow>
          snd (fetchEnvelopeItems (Some a) client key None) = ItemArray [] \<and> accountEnv = [])
    \<and> (fetch_fails client a key (site_id siteInfo) e' \<longrightarrow>
          snd (fetchEnvelopeItems (Some a) client key (site_id siteInfo)) = ItemArray []
          \<and> siteEnv = [])"
proof -
  from getEnvelopeEnv_layers [OF assms(1,2), of context_arg client key_arg scope_arg]
  obtain accountEnv siteEnv r where
    ae: "formatEnvelopeData (Some ctx) (Some (snd (fetchEnvelopeItems (Some a) client key None)))
        (Some scope) ''account'' = Inr accountEnv"
    and se: "formatEnvelopeData (Some ctx)
        (Some (snd (fetchEnvelopeItems (Some a) client key (site_id siteInfo))))
        (Some scope) ''ui'' = Inr siteEnv"
    and res: "snd (getEnvelopeEnv client context_arg env key_arg scope_arg siteInfo) = Inr r"
    and m: "map_of r =
        map_of (filterEnvBySource env ''general'') ++ map_of accountEnv
        ++ (if scope \<in> set [''any'', ''builds'', ''post_processing'']
            then map_of (filterEnvBySource env ''addons'') else Map.empty)
        ++ map_of siteEnv
        ++ (if scope \<in> set [''any'', ''builds'', ''post_processing'']
            then map_of (filterEnvBySource env ''configFile'') else Map.empty)"
    unfolding ctx_def key_def scope_def by blast
  have fa: "snd (fetchEnvelopeItems (Some a) client key None) = ItemArray [] \<and> accountEnv = []"
    if "fetch_fails client a key None e"
    using fetchEnvelopeItems_fails [OF that] ae by (simp add: formatEnvelopeData_no_items)
  have fs: "snd (fetchEnvelopeItems (Some a) client key (site_id siteInfo)) = ItemArray []
      \<and> siteEnv = []"
    if "fetch_fails client a key (site_id siteInfo) e'"
    using fetchEnvelopeItems_fails [OF that] se by (simp add: formatEnvelopeData_no_items)
  from ae se res m fa fs show ?thesis by blast
qed

text \<open>
  The account-level fetch fails with a server error, the site-level fetch succeeds: the
  site item and the local entries are merged.
\<close>

theorem fetch_failure_swallowed_witness:
  "\<exists>r. snd (getEnvelopeEnv (account_failing_api ServerError [item_with ''A'' ''all'' ''3''])
             None [(''A'', local_var ''general'' ''1''), (''B'', local_var ''general'' ''2'')]
             None None example_site) = Inr r
       \<and> map_option var_value (map_of r ''A'') = Some ''3''
       \<and> map_option var_value (map_of r ''B'') = Some ''2''"
proof -
  define client where "client = account_failing_api ServerError [item_with ''A'' ''all'' ''3'']"
  define env where "env = [(''A'', local_var ''general'' ''1''), (''B'', local_var ''general'' ''2'')]"
  have h1: "account_slug example_site = Some ''acct''" by (simp add: example_site_def)
  have h2: "distinct (map fst env)" by (simp add: env_def)
  have fails: "fetch_fails client ''acct'' [] None ServerError"
    by (simp add: fetch_fails_def client_def account_failing_api_def)
  from fetch_failure_swallowed [OF h1 h2, of None client None None ServerError ServerError]
  obtain accountEnv siteEnv r where
    se: "formatEnvelopeData (Some ''dev'')
        (Some (snd (fetchEnvelopeItems (Some ''acct'') client [] (site_id example_site))))
        (Some ''any'') ''ui'' = Inr siteEnv"
    and res: "snd (getEnvelopeEnv client None env None None example_site) = Inr r"
    and m: "map_of r =
        map_of (filterEnvBySource env ''general'') ++ map_of accountEnv
        ++ map_of (filterEnvBySource env ''addons'')
        ++ map_of siteEnv
        ++ map_of (filterEnvBySource env ''configFile'')"
    and fa: "fetch_fails client ''acct'' [] None ServerError \<longrightarrow>
          snd (fetchEnvelopeItems (Some ''acct'') client [] None) = ItemArray [] \<and> accountEnv = []"
    by auto
  from fa fails have acc: "accountEnv = []" by simp
  have "formatEnvelopeData (Some ''dev'')
        (Some (snd (fetchEnvelopeItems (Some ''acct'') client [] (site_id example_site))))
        (Some ''any'') ''ui''
      = Inr [(''A'', \<lparr>var_context = Some ''all'', var_branch = None,
                      var_scopes = Some AVAILABLE_SCOPES, var_sources = [''ui''],
                      var_value = ''3''\<rparr>)]"
    unfolding client_def by code_simp
  with se have site: "siteEnv = [(''A'', \<lparr>var_context = Some ''all'', var_branch = None,
                      var_scopes = Some AVAILABLE_SCOPES, var_sources = [''ui''],
                      var_value = ''3''\<rparr>)]" by simp
  have gen: "filterEnvBySource env ''general''
      = [(''A'', local_var ''general'' ''1''), (''B'', local_var ''general'' ''2'')]"
    unfolding env_def by code_simp
  have add: "filterEnvBySource env ''addons'' = []"
    unfolding env_def by code_simp
  have cfg: "filterEnvBySource env ''configFile'' = []"
    unfolding env_def by code_simp
  have "map_option var_value (map_of r ''A'') = Some ''3''"
    and "map_option var_value (map_of r ''B'') = Some ''2''"
    by (simp_all add: m gen add cfg acc site map_add_def local_var_def)
  with res show ?thesis unfolding client_def env_def by blast
qed



lemma first_source_is_unique:
  "first_source_is s v \<Longrightarrow> first_source_is s' v \<Longrightarrow> s' = s"
  by (auto simp: first_source_is_def split: list.splits)

text \<open>
  Claim C7. An entry of the locally known mapping whose first source is \<open>configFile\<close> or
  \<open>addons\<close>, under a key that no fetched item has, is in the resolved mapping if the
  requested scope is \<open>any\<close>, \<open>builds\<close> or \<open>post_processing\<close>, and absent for every other
  scope.
\<close>

theorem getEnvelopeEnv_config_gating:
  fixes context_arg key_arg scope_arg :: "string option" and client :: api
    and siteInfo :: site_info and a :: string
  assumes "account_slug siteInfo = Some a" and "distinct (map fst env)"
    and "map_of env k = Some v"
    and "first_source_is source v" and "source = ''configFile'' \<or> source = ''addons''"
    and "k \<notin> item_key ` set (items_of (snd (fetchEnvelopeItems (Some a) client
               (default_arg [] key_arg) None)))"
    and "k \<notin> item_key ` set (items_of (snd (fetchEnvelopeItems (Some a) client
               (default_arg [] key_arg) (site_id siteInfo))))"
  shows "\<exists>r. snd (getEnvelopeEnv client context_arg env key_arg scope_arg siteInfo) = Inr r
       \<and> map_of r k =
           (if default_arg ''any'' scope_arg \<in> set [''any'', ''builds'', ''post_processing'']
            then Some v else None)"
proof -
  from getEnvelopeEnv_layers [OF assms(1,2), of context_arg client key_arg scope_arg]
  obtain accountEnv siteEnv r where
    ak: "fst ` set accountEnv \<subseteq> item_key ` set (items_of (snd (fetchEnvelopeItems
           (Some a) client (default_arg [] key_arg) None)))"
    and sk: "fst ` set siteEnv \<subseteq> item_key ` set (items_of (snd (fetchEnvelopeItems
           (Some a) client (default_arg [] key_arg) (site_id siteInfo))))"
    and res: "snd (getEnvelopeEnv client context_arg env key_arg scope_arg siteInfo) = Inr r"
    and m: "map_of r =
        map_of (filterEnvBySource env ''general'') ++ map_of accountEnv
        ++ (if default_arg ''any'' scope_arg \<in> set [''any'', ''builds'', ''post_processing'']
            then map_of (filterEnvBySource env ''addons'') else Map.empty)
        ++ map_of siteEnv
        ++ (if default_arg ''any'' scope_arg \<in> set [''any'', ''builds'', ''post_processing'']
            then map_of (filterEnvBySource env ''configFile'') else Map.empty)"
    by blast
  have an: "map_of accountEnv k = None"
    using ak assms(6) by (auto simp: map_of_eq_None_iff)
  have sn: "map_of siteEnv k = None"
    using sk assms(7) by (auto simp: map_of_eq_None_iff)
  have src: "\<And>s. first_source_is s v \<longleftrightarrow> s = source"
    using assms(4) first_source_is_unique by blast
  have bucket: "\<And>s. map_of (filterEnvBySource env s) k = (if s = source then Some v else None)"
    by (simp add: map_of_filterEnvBySource [OF assms(2)] assms(3) src)
  have "map_of r k =
           (if default_arg ''any'' scope_arg \<in> set [''any'', ''builds'', ''post_processing'']
            then Some v else None)"
    using assms(5) by (auto simp: m map_add_def an sn bucket)
  with res show ?thesis by blast
qed

theorem getEnvelopeEnv_config_gating_witness:
  "(\<exists>r. snd (getEnvelopeEnv (static_api [] []) None [(''CFG'', local_var ''configFile'' ''x'')]
              None (Some ''runtime'') example_site) = Inr r
        \<and> map_of r ''CFG'' = None)
   \<and> (\<exists>r. snd (getEnvelopeEnv (static_api [] []) None [(''CFG'', local_var ''configFile'' ''x'')]
              None (Some ''builds'') example_site) = Inr r
        \<and> map_of r ''CFG'' = Some (local_var ''configFile'' ''x''))"
proof -
  define env where "env = [(''CFG'', local_var ''configFile'' ''x'')]"
  have h1: "account_slug example_site = Some ''acct''" by (simp add: example_site_def)
  have h2: "distinct (map fst env)" by (simp add: env_def)
  have h3: "map_of env ''CFG'' = Some (local_var ''configFile'' ''x'')" by (simp add: env_def)
  have h4: "first_source_is ''configFile'' (local_var ''configFile'' ''x'')"
    by (simp add: first_source_is_def local_var_def)
  have h5: "''configFile'' = ''configFile'' \<or> ''configFile'' = ''addons''" by simp
  have h6: "\<And>sid. ''CFG'' \<notin> item_key ` set (items_of (snd (fetchEnvelopeItems (Some ''acct'')
               (static_api [] []) (default_arg [] None) sid)))"
    by (simp add: fetchEnvelopeItems_def static_api_def split: option.splits)
  note gate = getEnvelopeEnv_config_gating [OF h1 h2 h3 h4 h5 h6 h6, of None]
  from gate [of "Some ''runtime''"] gate [of "Some ''builds''"]
  show ?thesis unfolding env_def by simp
qed

text \<open>
  Claim C10, as stated, fails in its last clause: the requested scope does select local
  entries. The same entry of the configFile bucket is left out of the resolution for the
  scope \<open>runtime\<close> and is in it for the scope \<open>builds\<close>.
\<close>

theorem getEnvelopeEnv_scope_selects_local_entry:
  "snd (getEnvelopeEnv (static_api [] []) None [(''CFG'', local_var ''configFile'' ''x'')]
         None (Some ''runtime'') example_site) = Inr []
   \<and> snd (getEnvelopeEnv (static_api [] []) None [(''CFG'', local_var ''configFile'' ''x'')]
         None (Some ''builds'') example_site) = Inr [(''CFG'', local_var ''configFile'' ''x'')]"
  by code_simp

text \<open>
  Claim C10, amended. An entry of the locally known mapping whose first source is
  \<open>general\<close> is in the resolved mapping for every requested scope and whatever its own
  \<open>scopes\<close> are, unless a formatted account or site item has the same key: then that item
  gives the entry, the site item before the account item. An entry whose first source is
  \<open>addons\<close> or \<open>configFile\<close>, under a key that no formatted item has, is selected by the
  requested scope as well: it is in the resolved mapping exactly for the scopes \<open>any\<close>,
  \<open>builds\<close> and \<open>post_processing\<close>.
\<close>

theorem getEnvelopeEnv_local_entries:
  fixes context_arg key_arg scope_arg :: "string option" and client :: api
    and siteInfo :: site_info and a :: string
  assumes "account_slug siteInfo = Some a" and "distinct (map fst env)"
    and "map_of env k = Some v"
  defines "ctx \<equiv> default_arg ''dev'' context_arg"
    and "key \<equiv> default_arg [] key_arg"
    and "scope \<equiv> default_arg ''any'' scope_arg"
  shows "\<exists>accountEnv siteEnv r.
      formatEnvelopeData (Some ctx) (Some (snd (fetchEnvelopeItems (Some a) client key None)))
        (Some scope) ''account'' = Inr accountEnv
    \<and> formatEnvelopeData (Some ctx)
        (Some (snd (fetchEnvelopeItems (Some a) client key (site_id siteInfo))))
        (Some scope) ''ui'' = Inr siteEnv
    \<and> snd (getEnvelopeEnv client context_arg env key_arg scope_arg siteInfo) = Inr r
    \<and> (first_source_is ''general'' v \<longrightarrow>
          map_of r k =
            (case map_of siteEnv k of
               Some w \<Rightarrow> Some w
             | None \<Rightarrow> (case map_of accountEnv k of Some w \<Rightarrow> Some w | None \<Rightarrow> Some v)))
    \<and> ((first_source_is ''addons'' v \<or> first_source_is ''configFile'' v)
          \<and> map_of accountEnv k = None \<and> map_of siteEnv k = None \<longrightarrow>
          map_of r k =
            (if scope \<in> set [''any'', ''builds'', ''post_processing''] then Some v else None))"
proof -
  from getEnvelopeEnv_layers [OF assms(1,2), of context_arg client key_arg scope_arg]
  obtain accountEnv siteEnv r where
    ae: "formatEnvelopeData (Some ctx) (Some (snd (fetchEnvelopeItems (Some a) client key None)))
        (Some scope) ''account'' = Inr accountEnv"
    and se: "formatEnvelopeData (Some ctx)
        (Some (snd (fetchEnvelopeItems (Some a) client key (site_id siteInfo))))
        (Some scope) ''ui'' = Inr siteEnv"
    and res: "snd (getEnvelopeEnv client context_arg env key_arg scope_arg siteInfo) = Inr r"
    and m: "map_of r =
        map_of (filterEnvBySource env ''general'') ++ map_of accountEnv
        ++ (if scope \<in> set [''any'', ''builds'', ''post_processing'']
            then map_of (filterEnvBySource env ''addons'') else Map.empty)
        ++ map_of siteEnv
        ++ (if scope \<in> set [''any'', ''builds'', ''post_processing'']
            then map_of (filterEnvBySource env ''configFile'') else Map.empty)"
    unfolding ctx_def key_def scope_def by blast
  have bucket: "\<And>s s'. first_source_is s v \<Longrightarrow>
      map_of (filterEnvBySource env s') k = (if s' = s then Some v else None)"
    using first_source_is_unique
    by (auto simp: map_of_filterEnvBySource [OF assms(2)] assms(3))
  have general: "map_of r k =
        (case map_of siteEnv k of
           Some w \<Rightarrow> Some w
         | None \<Rightarrow> (case map_of accountEnv k of Some w \<Rightarrow> Some w | None \<Rightarrow> Some v))"
    if "first_source_is ''general'' v"
    by (simp add: m map_add_def bucket [OF that] split: option.splits)
  have gated: "map_of r k =
        (if scope \<in> set [''any'', ''builds'', ''post_processing''] then Some v else None)"
    if "first_source_is src v" and "src = ''addons'' \<or> src = ''configFile''"
      and "map_of accountEnv k = None" and "map_of siteEnv k = None" for src
    using that(2-) by (auto simp: m map_add_def bucket [OF that(1)])
  from ae se res general gated show ?thesis by blast
qed

theorem getEnvelopeEnv_local_entries_witness:
  "(\<exists>r. snd (getEnvelopeEnv (static_api [] [])
             None [(''A'', (local_var ''general'' ''1'')\<lparr>var_scopes := Some [''builds'']\<rparr>)]
             None (Some ''runtime'') example_site) = Inr r
       \<and> map_of r ''A'' = Some ((local_var ''general'' ''1'')\<lparr>var_scopes := Some [''builds'']\<rparr>))
   \<and> (\<exists>r. snd (getEnvelopeEnv (static_api [] [])
             None [(''CFG'', local_var ''configFile'' ''x'')]
             None (Some ''functions'') example_site) = Inr r
       \<and> map_of r ''CFG'' = None)
   \<and> (\<exists>r. snd (getEnvelopeEnv (static_api [] [])
             None [(''CFG'', local_var ''configFile'' ''x'')]
             None (Some ''post_processing'') example_site) = Inr r
       \<and> map_of r ''CFG'' = Some (local_var ''configFile'' ''x''))"
proof -
  define v where "v = (local_var ''general'' ''1'')\<lparr>var_scopes := Some [''builds'']\<rparr>"
  define w where "w = local_var ''configFile'' ''x''"
  have h1: "account_slug example_site = Some ''acct''" by (simp add: example_site_def)
  have g: "first_source_is ''general'' v"
    by (simp add: first_source_is_def local_var_def v_def)
  have c: "first_source_is ''configFile'' w"
    by (simp add: first_source_is_def local_var_def w_def)
  have empty: "\<And>scope source sid.
      formatEnvelopeData (Some ''dev'')
        (Some (snd (fetchEnvelopeItems (Some ''acct'') (static_api [] []) [] sid)))
        (Some scope) source = Inr []"
    by (simp add: fetchEnvelopeItems_def static_api_def formatEnvelopeData_no_items
        split: option.splits)
  from getEnvelopeEnv_local_entries [of example_site "''acct''" "[(''A'', v)]" "''A''" v
      None "static_api [] []" None "Some ''runtime''"] h1 g
  have first: "\<exists>r. snd (getEnvelopeEnv (static_api [] []) None [(''A'', v)] None
      (Some ''runtime'') example_site) = Inr r \<and> map_of r ''A'' = Some v"
    by (auto simp: empty)
  from getEnvelopeEnv_local_entries [of example_site "''acct''" "[(''CFG'', w)]" "''CFG''" w
      None "static_api [] []" None "Some ''functions''"] h1 c
  have second: "\<exists>r. snd (getEnvelopeEnv (static_api [] []) None [(''CFG'', w)] None
      (Some ''functions'') example_site) = Inr r \<and> map_of r ''CFG'' = None"
    by (auto simp: empty)
  from getEnvelopeEnv_local_entries [of example_site "''acct''" "[(''CFG'', w)]" "''CFG''" w
      None "static_api [] []" None "Some ''post_processing''"] h1 c
  have third: "\<exists>r. snd (getEnvelopeEnv (static_api [] []) None [(''CFG'', w)] None
      (Some ''post_processing'') example_site) = Inr r \<and> map_of r ''CFG'' = Some w"
    by (auto simp: empty)
  from first second third show ?thesis unfolding v_def w_def by blast
qed

section \<open>Properties of the Context Normalizer\<close>

lemma normalizeContext_branch_prefix:
  "normalizeContext (Some (''branch:'' @ b)) = Inr (Some b)"
  by (simp add: normalizeContext_def get_prop_def CONTEXT_SYNONYMS_def Object_prototype_keys_def
      strip_branch_prefix_def)

lemma set_replace_prop_subset: "set (replace_prop k v ob) \<subseteq> insert (k, v) (set ob)"
  by (induction ob) (auto split: if_splits)

lemma set_set_prop_subset: "set (set_prop k v ob) \<subseteq> insert (k, v) (set ob)"
  using set_replace_prop_subset [of k v ob]
  by (auto simp: set_prop_def set_insert_index_prop)

lemma set_spread_subset: "set (spread target source) \<subseteq> set target \<union> set source"
proof (induction source arbitrary: target)
  case Nil
  show ?case by (simp add: spread_def)
next
  case (Cons p ps)
  obtain k v where p: "p = (k, v)" by (cases p)
  have "spread target (p # ps) = spread (set_prop k v target) ps"
    by (simp add: spread_def p)
  then show ?case
    using Cons.IH [of "set_prop k v target"] set_set_prop_subset [of k v target]
    by (auto simp: p)
qed

lemma findValueInValues_branch_Some:
  assumes "ctx \<notin> set AVAILABLE_CONTEXTS" and "findValueInValues vals ctx = Some val"
  shows "val_context val \<in> set [''branch'', ''all''] \<and> val_context_parameter val = Some ctx"
  using assms by (auto simp: findValueInValues_def find_Some_iff)

lemma reduce_format_step_branch:
  assumes "ctx \<notin> set AVAILABLE_CONTEXTS"
    and "reduce (format_step ctx source) acc its = Inr r"
    and "\<forall>(k, v) \<in> set acc. var_branch v = Some ctx
           \<and> var_context v \<in> {Some ''branch'', Some ''all''}"
  shows "\<forall>(k, v) \<in> set r. var_branch v = Some ctx
           \<and> var_context v \<in> {Some ''branch'', Some ''all''}"
  using assms(2,3)
proof (induction its arbitrary: acc)
  case Nil
  then show ?case by simp
next
  case (Cons it its)
  from Cons.prems(1) obtain acc' where step: "format_step ctx source acc it = Inr acc'"
    and rest: "reduce (format_step ctx source) acc' its = Inr r"
    by (auto split: sum.splits)
  from step obtain val where val: "findValueInValues (item_values it) ctx = Some val"
    and acc': "acc' = set_prop (item_key it)
       \<lparr>var_context = Some (val_context val), var_branch = val_context_parameter val,
        var_scopes = Some (item_scopes it), var_sources = [source], var_value = val_value val\<rparr>
       (spread [] acc)"
    by (auto simp: format_step_def split: option.splits)
  from findValueInValues_branch_Some [OF assms(1) val]
  have new: "val_context_parameter val = Some ctx"
    "val_context val = ''branch'' \<or> val_context val = ''all''" by auto
  have "set (spread [] acc) \<subseteq> set acc" using set_spread_subset [of "[]" acc] by simp
  with set_set_prop_subset [of "item_key it" _ "spread [] acc"]
  have "set acc' \<subseteq> insert (item_key it,
       \<lparr>var_context = Some (val_context val), var_branch = val_context_parameter val,
        var_scopes = Some (item_scopes it), var_sources = [source], var_value = val_value val\<rparr>)
       (set acc)"
    unfolding acc' by blast
  with Cons.prems(2) new
  have "\<forall>(k, v) \<in> set acc'. var_branch v = Some ctx
           \<and> var_context v \<in> {Some ''branch'', Some ''all''}" by auto
  from Cons.IH [OF rest this] show ?case .
qed

lemma formatEnvelopeData_branch:
  assumes "ctx \<notin> set AVAILABLE_CONTEXTS"
    and "formatEnvelopeData (Some ctx) (Some (ItemArray its)) scope_arg source = Inr r"
  shows "\<forall>(k, v) \<in> set r. var_branch v = Some ctx
           \<and> var_context v \<in> {Some ''branch'', Some ''all''}"
proof -
  from assms(2) obtain sorted where "reduce (format_step ctx source) [] sorted = Inr r"
    by (simp add: formatEnvelopeData_def Let_def)
  from reduce_format_step_branch [OF assms(1) this] show ?thesis by simp
qed

lemma synonyms_not_enumerated:
  "ctx = ''prod'' \<or> ctx = ''dp'' \<or> take 7 ctx = ''branch:'' \<Longrightarrow> ctx \<notin> set AVAILABLE_CONTEXTS"
  by (auto simp: AVAILABLE_CONTEXTS_def)

text \<open>
  Claim C5, as stated, fails in each of its three equalities: the Precedence Merger
  matches the context it is given. For a site item with a value tagged \<open>production\<close>,
  resolving with \<open>prod\<close> and with \<open>production\<close> give different mappings; so do \<open>dp\<close> and
  \<open>deploy-preview\<close> for a value tagged \<open>deploy-preview\<close>, and \<open>branch:staging\<close> and
  \<open>staging\<close> for a value of the branch \<open>staging\<close>.
\<close>

theorem getEnvelopeEnv_not_normalized:
  "snd (getEnvelopeEnv (static_api [] [item_with ''K'' ''production'' ''v''])
         (Some ''prod'') [] None None example_site)
   \<noteq> snd (getEnvelopeEnv (static_api [] [item_with ''K'' ''production'' ''v''])
         (Some ''production'') [] None None example_site)
   \<and> snd (getEnvelopeEnv (static_api [] [item_with ''K'' ''deploy-preview'' ''v''])
         (Some ''dp'') [] None None example_site)
   \<noteq> snd (getEnvelopeEnv (static_api [] [item_with ''K'' ''deploy-preview'' ''v''])
         (Some ''deploy-preview'') [] None None example_site)
   \<and> snd (getEnvelopeEnv (static_api [] [branch_item ''K'' ''staging'' ''v''])
         (Some ''branch:staging'') [] None None example_site)
   \<noteq> snd (getEnvelopeEnv (static_api [] [branch_item ''K'' ''staging'' ''v''])
         (Some ''staging'') [] None None example_site)"
  by code_simp

text \<open>
  Claim C5, amended. The Precedence Merger does not normalize the requested context. The
  strings \<open>prod\<close>, \<open>dp\<close> and every name prefixed by \<open>branch:\<close> are not enumerated contexts,
  so the Merger takes them as the names of branches: with a defined account identifier the
  resolution for such a string returns the usual layering, in which every entry that comes
  from a fetched item was selected through a value tagged \<open>branch\<close> or \<open>all\<close> whose
  \<open>context_parameter\<close> is the requested string itself. The synonyms are rewritten by the
  Context Normalizer alone: it maps \<open>prod\<close> to \<open>production\<close>, \<open>dp\<close> to \<open>deploy-preview\<close>
  and a name prefixed by \<open>branch:\<close> to the bare name.
\<close>

theorem getEnvelopeEnv_literal_context:
  fixes key_arg scope_arg :: "string option" and client :: api
    and siteInfo :: site_info and a :: string
  assumes "account_slug siteInfo = Some a" and "distinct (map fst env)"
    and "ctx = ''prod'' \<or> ctx = ''dp'' \<or> take 7 ctx = ''branch:''"
  defines "key \<equiv> default_arg [] key_arg"
    and "scope \<equiv> default_arg ''any'' scope_arg"
  shows "\<exists>accountEnv siteEnv r.
      formatEnvelopeData (Some ctx) (Some (snd (fetchEnvelopeItems (Some a) client key None)))
        (Some scope) ''account'' = Inr accountEnv
    \<and> formatEnvelopeData (Some ctx)
        (Some (snd (fetchEnvelopeItems (Some a) client key (site_id siteInfo))))
        (Some scope) ''ui'' = Inr siteEnv
    \<and> snd (getEnvelopeEnv client (Some ctx) env key_arg scope_arg siteInfo) = Inr r
    \<and> map_of r =
        map_of (filterEnvBySource env ''general'') ++ map_of accountEnv
        ++ (if scope \<in> set [''any'', ''builds'', ''post_processing'']
            then map_of (filterEnvBySource env ''addons'') else Map.empty)
        ++ map_of siteEnv
        ++ (if scope \<in> set [''any'', ''builds'', ''post_processing'']
            then map_of (filterEnvBySource env ''configFile'') else Map.empty)
    \<and> (\<forall>(k, v) \<in> set accountEnv \<union> set siteEnv.
          var_branch v = Some ctx \<and> var_context v \<in> {Some ''branch'', Some ''all''})
    \<and> normalizeContext (Some ''prod'') = Inr (Some ''production'')
    \<and> normalizeContext (Some ''dp'') = Inr (Some ''deploy-preview'')
    \<and> normalizeContext (Some (''branch:'' @ b)) = Inr (Some b)"
proof -
  have notin: "ctx \<notin> set AVAILABLE_CONTEXTS"
    using assms(3) by (rule synonyms_not_enumerated)
  from getEnvelopeEnv_layers [OF assms(1,2), of "Some ctx" client key_arg scope_arg]
  obtain accountEnv siteEnv r where
    ae: "formatEnvelopeData (Some ctx) (Some (snd (fetchEnvelopeItems (Some a) client key None)))
        (Some scope) ''account'' = Inr accountEnv"
    and se: "formatEnvelopeData (Some ctx)
        (Some (snd (fetchEnvelopeItems (Some a) client key (site_id siteInfo))))
        (Some scope) ''ui'' = Inr siteEnv"
    and res: "snd (getEnvelopeEnv client (Some ctx) env key_arg scope_arg siteInfo) = Inr r"
    and m: "map_of r =
        map_of (filterEnvBySource env ''general'') ++ map_of accountEnv
        ++ (if scope \<in> set [''any'', ''builds'', ''post_processing'']
            then map_of (filterEnvBySource env ''addons'') else Map.empty)
        ++ map_of siteEnv
        ++ (if scope \<in> set [''any'', ''builds'', ''post_processing'']
            then map_of (filterEnvBySource env ''configFile'') else Map.empty)"
    unfolding key_def scope_def by auto
  obtain xs where xs: "snd (fetchEnvelopeItems (Some a) client key None) = ItemArray xs"
    using fetchEnvelopeItems_defined by blast
  obtain ys where ys: "snd (fetchEnvelopeItems (Some a) client key (site_id siteInfo)) = ItemArray ys"
    using fetchEnvelopeItems_defined by blast
  have a1: "\<forall>(k, v) \<in> set accountEnv.
          var_branch v = Some ctx \<and> var_context v \<in> {Some ''branch'', Some ''all''}"
    using formatEnvelopeData_branch [OF notin] ae xs by simp
  have s1: "\<forall>(k, v) \<in> set siteEnv.
          var_branch v = Some ctx \<and> var_context v \<in> {Some ''branch'', Some ''all''}"
    using formatEnvelopeData_branch [OF notin] se ys by simp
  have sel: "\<forall>(k, v) \<in> set accountEnv \<union> set siteEnv.
          var_branch v = Some ctx \<and> var_context v \<in> {Some ''branch'', Some ''all''}"
    using a1 s1 by blast
  have p: "normalizeContext (Some ''prod'') = Inr (Some ''production'')"
    by (simp add: normalizeContext_def get_prop_def CONTEXT_SYNONYMS_def strip_branch_prefix_def)
  have d: "normalizeContext (Some ''dp'') = Inr (Some ''deploy-preview'')"
    by (simp add: normalizeContext_def get_prop_def CONTEXT_SYNONYMS_def strip_branch_prefix_def)
  have b: "normalizeContext (Some (''branch:'' @ b)) = Inr (Some b)"
    by (rule normalizeContext_branch_prefix)
  from ae se res m sel p d b show ?thesis by blast
qed

text \<open>
  Resolving with \<open>prod\<close>: the site item with a value of the branch \<open>prod\<close> is in the
  result, the one with a value tagged \<open>production\<close> is not.
\<close>

theorem getEnvelopeEnv_literal_context_witness:
  "\<exists>r. snd (getEnvelopeEnv
             (static_api [] [branch_item ''K'' ''prod'' ''v'', item_with ''P'' ''production'' ''w''])
             (Some ''prod'') [] None None example_site) = Inr r
       \<and> map_option var_branch (map_of r ''K'') = Some (Some ''prod'')
       \<and> map_of r ''P'' = None"
proof -
  define client where
    "client = static_api [] [branch_item ''K'' ''prod'' ''v'', item_with ''P'' ''production'' ''w'']"
  have h1: "account_slug example_site = Some ''acct''" by (simp add: example_site_def)
  have h2: "distinct (map fst ([] :: env_var obj))" by simp
  have h3: "''prod'' = ''prod'' \<or> ''prod'' = ''dp'' \<or> take 7 ''prod'' = ''branch:''" by simp
  from getEnvelopeEnv_literal_context [OF h1 h2 h3, where client = client
      and key_arg = None and scope_arg = None and b = "''staging''"]
  obtain r where
    res: "snd (getEnvelopeEnv client (Some ''prod'') [] None None example_site) = Inr r"
    by blast
  have "snd (getEnvelopeEnv client (Some ''prod'') [] None None example_site)
      = Inr [(''K'', \<lparr>var_context = Some ''branch'', var_branch = Some ''prod'',
                      var_scopes = Some AVAILABLE_SCOPES, var_sources = [''ui''],
                      var_value = ''v''\<rparr>)]"
    unfolding client_def by code_simp
  with res have "r = [(''K'', \<lparr>var_context = Some ''branch'', var_branch = Some ''prod'',
                      var_scopes = Some AVAILABLE_SCOPES, var_sources = [''ui''],
                      var_value = ''v''\<rparr>)]" by simp
  then have "map_option var_branch (map_of r ''K'') = Some (Some ''prod'')"
    and "map_of r ''P'' = None" by simp_all
  with res show ?thesis unfolding client_def by blast
qed

section \<open>Properties of the Scope Humanizer\<close>

lemma get_prop_HUMAN_SCOPES:
  "s \<in> set AVAILABLE_SCOPES \<Longrightarrow>
   get_prop HUMAN_SCOPES s = Own (case map_of HUMAN_SCOPES s of None \<Rightarrow> [] | Some l \<Rightarrow> l)"
  by (auto simp: AVAILABLE_SCOPES_def get_prop_def HUMAN_SCOPES_def)

lemma length_keys_HUMAN_SCOPES: "length (Object_keys HUMAN_SCOPES) = 4"
  by (simp add: Object_keys_def HUMAN_SCOPES_def)

lemma join_Own:
  "join sep (map (\<lambda>s. Own (f s)) xs) = Some (join_strings sep (map f xs))"
  by (auto simp: join_def comp_def)

text \<open>
  Claim C8, as stated, fails: the labels come in the order of the input list, not in the
  order of the enumeration. For \<open>[runtime, builds]\<close> the program gives \<open>Runtime, Builds\<close>,
  the Humanizer of the specification \<open>Builds, Runtime\<close>.
\<close>

theorem getHumanReadableScopes_input_order:
  "getHumanReadableScopes (Some [''runtime'', ''builds'']) = Some ''Runtime, Builds''
   \<and> humanizeScopes_spec (Some [''runtime'', ''builds'']) = Some ''Builds, Runtime''
   \<and> getHumanReadableScopes (Some [''runtime'', ''builds''])
       \<noteq> humanizeScopes_spec (Some [''runtime'', ''builds''])"
  by code_simp

text \<open>
  Claim C8, amended. \<open>undefined\<close> gives \<open>Builds, Post processing\<close>; a list that enumerates
  the four scopes without repetition gives \<open>All\<close>; any other list of enumerated scopes
  without repetition gives the labels of its members, joined by a comma and a space, in
  the order of the list.
\<close>

theorem getHumanReadableScopes_cases:
  "getHumanReadableScopes None = Some ''Builds, Post processing''
   \<and> (distinct scopes \<and> set scopes = set AVAILABLE_SCOPES
        \<longrightarrow> getHumanReadableScopes (Some scopes) = Some ''All'')
   \<and> (distinct scopes \<and> set scopes \<subset> set AVAILABLE_SCOPES
        \<longrightarrow> getHumanReadableScopes (Some scopes)
            = Some (join_strings '', ''
                (map (\<lambda>s. case map_of HUMAN_SCOPES s of None \<Rightarrow> [] | Some l \<Rightarrow> l) scopes)))"
proof (intro conjI impI)
  show "getHumanReadableScopes None = Some ''Builds, Post processing''"
    by (simp add: getHumanReadableScopes_def)
next
  assume full: "distinct scopes \<and> set scopes = set AVAILABLE_SCOPES"
  then have "length scopes = card (set AVAILABLE_SCOPES)"
    using distinct_card [of scopes] by simp
  also have "\<dots> = 4" by (simp add: AVAILABLE_SCOPES_def)
  finally show "getHumanReadableScopes (Some scopes) = Some ''All''"
    using length_keys_HUMAN_SCOPES by (simp add: getHumanReadableScopes_def)
next
  assume part: "distinct scopes \<and> set scopes \<subset> set AVAILABLE_SCOPES"
  then have "card (set scopes) < card (set AVAILABLE_SCOPES)"
    by (intro psubset_card_mono) simp_all
  moreover have "card (set AVAILABLE_SCOPES) = 4" by (simp add: AVAILABLE_SCOPES_def)
  ultimately have len: "length scopes \<noteq> 4"
    using part distinct_card [of scopes] by simp
  have eq: "map (get_prop HUMAN_SCOPES) scopes
      = map (\<lambda>s. Own (case map_of HUMAN_SCOPES s of None \<Rightarrow> [] | Some l \<Rightarrow> l)) scopes"
    using part by (intro map_cong refl get_prop_HUMAN_SCOPES) auto
  show "getHumanReadableScopes (Some scopes)
      = Some (join_strings '', ''
          (map (\<lambda>s. case map_of HUMAN_SCOPES s of None \<Rightarrow> [] | Some l \<Rightarrow> l) scopes))"
    using len length_keys_HUMAN_SCOPES by (simp add: getHumanReadableScopes_def eq join_Own)
qed

theorem getHumanReadableScopes_cases_witness:
  "getHumanReadableScopes (Some [''builds'', ''functions'', ''runtime'', ''post_processing''])
     = Some ''All''
   \<and> getHumanReadableScopes (Some [''post_processing'', ''functions''])
     = Some ''Post processing, Functions''"
proof -
  have a: "distinct [''builds'', ''functions'', ''runtime'', ''post_processing'']
     \<and> set [''builds'', ''functions'', ''runtime'', ''post_processing''] = set AVAILABLE_SCOPES"
    by (simp add: AVAILABLE_SCOPES_def)
  have "''builds'' \<in> set AVAILABLE_SCOPES" "''builds'' \<notin> set [''post_processing'', ''functions'']"
    by (simp_all add: AVAILABLE_SCOPES_def)
  then have "set [''post_processing'', ''functions''] \<noteq> set AVAILABLE_SCOPES" by metis
  moreover have "set [''post_processing'', ''functions''] \<subseteq> set AVAILABLE_SCOPES"
    by (simp add: AVAILABLE_SCOPES_def)
  ultimately have b: "distinct [''post_processing'', ''functions'']
     \<and> set [''post_processing'', ''functions''] \<subset> set AVAILABLE_SCOPES"
    by (simp add: psubset_eq)
  from getHumanReadableScopes_cases [of "[''builds'', ''functions'', ''runtime'', ''post_processing'']"] a
  have "getHumanReadableScopes (Some [''builds'', ''functions'', ''runtime'', ''post_processing''])
     = Some ''All''" by blast
  moreover from getHumanReadableScopes_cases [of "[''post_processing'', ''functions'']"] b
  have "getHumanReadableScopes (Some [''post_processing'', ''functions''])
     = Some (join_strings '', ''
          (map (\<lambda>s. case map_of HUMAN_SCOPES s of None \<Rightarrow> [] | Some l \<Rightarrow> l)
             [''post_processing'', ''functions'']))" by blast
  ultimately show ?thesis by (simp add: HUMAN_SCOPES_def)
qed

section \<open>Order of the formatted keys\<close>

text \<open>
  The items reach \<open>reduce\<close> in ascending order of their lower-cased keys, and as long as
  no key is an array index the keys of the formatted mapping keep this order.
\<close>

lemma compare_keys_negative: "compare_keys x y < 0 \<longleftrightarrow> lower_key x < lower_key y"
  by (simp add: compare_keys_def lower_key_def)

lemma sorted_insort_compare_keys:
  "sorted_wrt (\<lambda>a b. lower_key a \<le> lower_key b) ys \<Longrightarrow>
   sorted_wrt (\<lambda>a b. lower_key a \<le> lower_key b) (insort_cmp compare_keys x ys)"
proof (induction ys)
  case Nil
  show ?case by simp
next
  case (Cons y ys)
  show ?case
  proof (cases "lower_key x < lower_key y")
    case True
    with Cons.prems show ?thesis
      by (auto simp: compare_keys_negative intro: less_imp_le order_trans)
  next
    case False
    then have "lower_key y \<le> lower_key x" by simp
    with Cons False show ?thesis
      by (auto simp: compare_keys_negative set_insort_cmp)
  qed
qed

lemma sorted_foldl_insort_compare_keys:
  "sorted_wrt (\<lambda>a b. lower_key a \<le> lower_key b) acc \<Longrightarrow>
   sorted_wrt (\<lambda>a b. lower_key a \<le> lower_key b)
     (foldl (\<lambda>acc x. insort_cmp compare_keys x acc) acc xs)"
  by (induction xs arbitrary: acc) (simp_all add: sorted_insort_compare_keys)

lemma sorted_array_sort_compare_keys:
  "sorted_wrt (\<lambda>a b. lower_key a \<le> lower_key b) (array_sort compare_keys xs)"
  by (simp add: array_sort_def sorted_foldl_insort_compare_keys)

lemma keys_set_prop_no_index:
  "\<not> is_array_index k \<Longrightarrow>
   map fst (set_prop k v ob) = (if k \<in> fst ` set ob then map fst ob else map fst ob @ [k])"
  by (simp add: set_prop_def keys_replace_prop)

lemma spread_append_no_index:
  "distinct (map fst source) \<Longrightarrow> fst ` set target \<inter> fst ` set source = {} \<Longrightarrow>
   \<forall>k \<in> fst ` set source. \<not> is_array_index k \<Longrightarrow>
   spread target source = target @ source"
proof (induction source arbitrary: target)
  case Nil
  show ?case by (simp add: spread_def)
next
  case (Cons p ps)
  obtain k v where p: "p = (k, v)" by (cases p)
  from Cons.prems have new: "k \<notin> fst ` set target" and noidx: "\<not> is_array_index k"
    by (auto simp: p)
  then have sp: "set_prop k v target = target @ [(k, v)]" by (simp add: set_prop_def)
  have unfold: "spread target (p # ps) = spread (target @ [(k, v)]) ps"
    by (simp add: spread_def p sp)
  from Cons.prems have d: "distinct (map fst ps)" and kps: "k \<notin> fst ` set ps"
    and rest: "\<forall>k \<in> fst ` set ps. \<not> is_array_index k"
    and disj: "fst ` set target \<inter> fst ` set ps = {}"
    by (auto simp: p)
  have "fst ` set (target @ [(k, v)]) \<inter> fst ` set ps = {}"
    using kps disj by auto
  from Cons.IH [OF d this rest] have "spread (target @ [(k, v)]) ps = (target @ [(k, v)]) @ ps" .
  then show ?case unfolding unfold by (simp add: p)
qed

lemma spread_empty_no_index:
  "distinct (map fst ob) \<Longrightarrow> \<forall>k \<in> fst ` set ob. \<not> is_array_index k \<Longrightarrow> spread [] ob = ob"
  using spread_append_no_index [of ob "[]"] by simp

lemma reduce_format_step_sorted:
  assumes "\<forall>it \<in> set its. findValueInValues (item_values it) ctx \<noteq> None"
    and "\<forall>it \<in> set its. \<not> is_array_index (item_key it)"
    and "sorted_wrt (\<lambda>a b. lower_key a \<le> lower_key b) its"
    and "distinct (map fst acc)" and "\<forall>k \<in> fst ` set acc. \<not> is_array_index k"
    and "sorted_wrt (\<lambda>a b. toLowerCase a \<le> toLowerCase b) (map fst acc)"
    and "\<forall>k \<in> fst ` set acc. \<forall>it \<in> set its. toLowerCase k \<le> lower_key it"
  shows "\<exists>r. reduce (format_step ctx source) acc its = Inr r
           \<and> sorted_wrt (\<lambda>a b. toLowerCase a \<le> toLowerCase b) (map fst r)"
  using assms
proof (induction its arbitrary: acc)
  case Nil
  then show ?case by simp
next
  case (Cons it its)
  from Cons.prems(1) obtain val where val: "findValueInValues (item_values it) ctx = Some val"
    by auto
  define entry where "entry =
     \<lparr>var_context = Some (val_context val), var_branch = val_context_parameter val,
      var_scopes = Some (item_scopes it), var_sources = [source], var_value = val_value val\<rparr>"
  define acc' where "acc' = set_prop (item_key it) entry acc"
  from Cons.prems(2) have noidx: "\<not> is_array_index (item_key it)" by simp
  have same: "spread [] acc = acc"
    using Cons.prems(4,5) by (rule spread_empty_no_index)
  have step: "format_step ctx source acc it = Inr acc'"
    by (simp add: format_step_def val acc'_def entry_def same)
  have keys: "map fst acc' =
      (if item_key it \<in> fst ` set acc then map fst acc else map fst acc @ [item_key it])"
    unfolding acc'_def using noidx by (rule keys_set_prop_no_index)
  have d': "distinct (map fst acc')"
    unfolding acc'_def using Cons.prems(4) by (rule distinct_set_prop)
  have ks: "fst ` set acc' = insert (item_key it) (fst ` set acc)"
    unfolding acc'_def by (rule keys_set_prop)
  have n': "\<forall>k \<in> fst ` set acc'. \<not> is_array_index k"
    using Cons.prems(5) noidx by (simp add: ks)
  have head: "\<forall>k \<in> fst ` set acc. toLowerCase k \<le> toLowerCase (item_key it)"
    using Cons.prems(7) by (simp add: lower_key_def)
  have s': "sorted_wrt (\<lambda>a b. toLowerCase a \<le> toLowerCase b) (map fst acc')"
    using Cons.prems(6) head by (auto simp: keys sorted_wrt_append)
  have b': "\<forall>k \<in> fst ` set acc'. \<forall>it' \<in> set its. toLowerCase k \<le> lower_key it'"
    using Cons.prems(3,7) by (auto simp: ks lower_key_def)
  from Cons.prems(1,2,3)
  have "\<forall>it \<in> set its. findValueInValues (item_values it) ctx \<noteq> None"
    and "\<forall>it \<in> set its. \<not> is_array_index (item_key it)"
    and "sorted_wrt (\<lambda>a b. lower_key a \<le> lower_key b) its" by simp_all
  from Cons.IH [OF this d' n' s' b'] show ?case by (simp add: step)
qed

lemma formatEnvelopeData_sorted_keys:
  assumes "\<forall>it \<in> set its. \<not> is_array_index (item_key it)"
  shows "\<exists>r. formatEnvelopeData context_arg (Some (ItemArray its)) scope_arg source = Inr r
       \<and> sorted_wrt (\<lambda>a b. toLowerCase a \<le> toLowerCase b) (Object_keys r)"
proof -
  define ctx where "ctx = default_arg ''dev'' context_arg"
  define scope where "scope = default_arg ''any'' scope_arg"
  define sorted where "sorted = array_sort compare_keys
     (filter (\<lambda>it. scope = ''any'' \<or> scope \<in> set (item_scopes it))
       (filter (\<lambda>it. findValueInValues (item_values it) ctx \<noteq> None) its))"
  have eq: "formatEnvelopeData context_arg (Some (ItemArray its)) scope_arg source
      = reduce (format_step ctx source) [] sorted"
    by (simp add: formatEnvelopeData_def Let_def ctx_def scope_def sorted_def)
  have all: "\<forall>it \<in> set sorted. findValueInValues (item_values it) ctx \<noteq> None"
    by (simp add: sorted_def set_array_sort)
  have noidx: "\<forall>it \<in> set sorted. \<not> is_array_index (item_key it)"
    using assms by (simp add: sorted_def set_array_sort)
  have srt: "sorted_wrt (\<lambda>a b. lower_key a \<le> lower_key b) sorted"
    unfolding sorted_def by (rule sorted_array_sort_compare_keys)
  from reduce_format_step_sorted [OF all noidx srt, of "[]" source]
  show ?thesis by (simp add: eq Object_keys_def)
qed

lemma formatEnvelopeData_example_order:
  "map_sum id Object_keys
     (formatEnvelopeData None
        (Some (ItemArray [item_with ''b'' ''all'' ''1'', item_with ''A'' ''all'' ''2'',
                          item_with ''a2'' ''all'' ''3'']))
        None ''ui'')
   = Inr [''A'', ''a2'', ''b'']"
  by code_simp

text \<open>
  Claim C9. For the items with keys \<open>10\<close> and \<open>9\<close> the keys of the formatted mapping
  come in the order \<open>9\<close>, \<open>10\<close>, although \<open>10\<close> is before \<open>9\<close> in the case-insensitive
  order of strings by which the items are sorted: an object enumerates its array-index
  keys first, in numeric order.
\<close>

theorem formatEnvelopeData_index_keys_unsorted:
  "map_sum id Object_keys
     (formatEnvelopeData None
        (Some (ItemArray [item_with ''10'' ''all'' ''x'', item_with ''9'' ''all'' ''y'']))
        None ''ui'')
   = Inr [''9'', ''10'']
   \<and> toLowerCase ''10'' < toLowerCase ''9''"
  by code_simp

section \<open>Properties of the Legacy Translators\<close>

lemma set_spread_empty: "distinct (map fst ob) \<Longrightarrow> set (spread [] ob) = set ob"
proof -
  assume d: "distinct (map fst ob)"
  have "distinct (map fst (spread [] ob))" by (simp add: distinct_spread)
  moreover have "map_of (spread [] ob) = map_of ob" using d by (rule map_of_spread_empty)
  ultimately show ?thesis using d by (simp add: map_of_inject_set)
qed

lemma insort_cmp_map:
  "insort_cmp cmp (f x) (map f ys) = map f (insort_cmp (\<lambda>a b. cmp (f a) (f b)) x ys)"
  by (induction ys) auto

lemma foldl_insort_cmp_map:
  "foldl (\<lambda>acc x. insort_cmp cmp x acc) (map f acc) (map f xs)
     = map f (foldl (\<lambda>acc x. insort_cmp (\<lambda>a b. cmp (f a) (f b)) x acc) acc xs)"
  by (induction xs arbitrary: acc) (simp_all add: insort_cmp_map)

lemma array_sort_map:
  "array_sort cmp (map f xs) = map f (array_sort (\<lambda>a b. cmp (f a) (f b)) xs)"
  using foldl_insort_cmp_map [of cmp f "[]" xs] by (simp add: array_sort_def)

lemma mongo_step_all:
  "mongo_step ''all'' acc
     \<lparr>item_key = k, item_scopes = sc,
      item_values = [\<lparr>val_context = ''all'', val_context_parameter = None, val_value = v\<rparr>]\<rparr>
   = (if v \<noteq> [] then set_prop k v (spread [] acc) else acc)"
  by (simp add: mongo_step_def parameter_or_context_def)

lemma foldl_mongo_step:
  fixes ps :: "(string \<times> string) list"
  defines "mk \<equiv> \<lambda>(key, val).
     \<lparr>item_key = key, item_scopes = AVAILABLE_SCOPES,
      item_values = [\<lparr>val_context = ''all'', val_context_parameter = None, val_value = val\<rparr>]\<rparr>"
  assumes "distinct (map fst acc)" and "distinct (map fst ps)"
    and "fst ` set acc \<inter> fst ` set ps = {}"
  shows "set (foldl (mongo_step ''all'') acc (map mk ps)) = set acc \<union> {(k, v) \<in> set ps. v \<noteq> []}
       \<and> distinct (map fst (foldl (mongo_step ''all'') acc (map mk ps)))"
  using assms(2-)
proof (induction ps arbitrary: acc)
  case Nil
  then show ?case by simp
next
  case (Cons p ps)
  obtain k v where p: "p = (k, v)" by (cases p)
  define acc' where "acc' = (if v \<noteq> [] then set_prop k v (spread [] acc) else acc)"
  have step: "mongo_step ''all'' acc (mk p) = acc'"
    by (simp add: p mk_def mongo_step_all acc'_def)
  from Cons.prems have knew: "k \<notin> fst ` set acc" and kps: "k \<notin> fst ` set ps"
    and dps: "distinct (map fst ps)" and disj: "fst ` set acc \<inter> fst ` set ps = {}"
    by (auto simp: p)
  have sp: "set (spread [] acc) = set acc" using Cons.prems(1) by (rule set_spread_empty)
  then have knew': "k \<notin> fst ` set (spread [] acc)" using knew by simp
  have d': "distinct (map fst acc')"
    using Cons.prems(1) by (simp add: acc'_def distinct_set_prop distinct_spread)
  have set': "set acc' = set acc \<union> {(k', v') \<in> {(k, v)}. v' \<noteq> []}"
    using knew' by (auto simp: acc'_def set_set_prop_new sp)
  have keys': "fst ` set acc' \<subseteq> insert k (fst ` set acc)"
    using set' by auto
  have "fst ` set acc' \<inter> fst ` set ps \<subseteq> insert k (fst ` set acc) \<inter> fst ` set ps"
    using keys' by blast
  also have "\<dots> = {}" using kps disj by blast
  finally have disj': "fst ` set acc' \<inter> fst ` set ps = {}" by simp
  have fold_eq: "foldl (mongo_step ''all'') acc (map mk (p # ps))
      = foldl (mongo_step ''all'') acc' (map mk ps)"
    by (simp add: step)
  have sets: "set acc' \<union> {(k, v) \<in> set ps. v \<noteq> []}
      = set acc \<union> {(k, v) \<in> set (p # ps). v \<noteq> []}"
    unfolding set' p by auto
  from Cons.IH [OF d' dps disj'] show ?case
    unfolding fold_eq sets by simp
qed

text \<open>
  Claim C1, as stated, fails: a key with the empty string as its value is dropped on the
  way back, because the empty string is falsy.
\<close>

theorem roundtrip_drops_empty_value:
  "translateFromEnvelopeToMongo (Some (translateFromMongoToEnvelope (Some [(''A'', [])])))
     (Some ''all'') = []
   \<and> translateFromEnvelopeToMongo (Some (translateFromMongoToEnvelope (Some [(''A'', [])])))
     (Some ''all'') \<noteq> [(''A'', [])]"
  by code_simp

text \<open>
  Claim C1, amended. For every flat mapping \<open>M\<close> (its keys being unique), translating to
  the structured form and back with context \<open>all\<close> gives exactly the entries of \<open>M\<close> whose
  value is not the empty string, each key once; so it reproduces \<open>M\<close>, with the same keys
  and the same values, whenever no value of \<open>M\<close> is empty.
\<close>

theorem roundtrip_nonempty_values:
  assumes "distinct (map fst M)"
  defines "flat \<equiv> translateFromEnvelopeToMongo (Some (translateFromMongoToEnvelope (Some M)))
                     (Some ''all'')"
  shows "set flat = {(k, v) \<in> set M. v \<noteq> []} \<and> distinct (map fst flat)
       \<and> ((\<forall>(k, v) \<in> set M. v \<noteq> []) \<longrightarrow>
             map_of flat = map_of M \<and> set (Object_keys flat) = set (Object_keys M))"
proof -
  define mk :: "string \<times> string \<Rightarrow> envelope_item" where "mk = (\<lambda>(key, val).
     \<lparr>item_key = key, item_scopes = AVAILABLE_SCOPES,
      item_values = [\<lparr>val_context = ''all'', val_context_parameter = None, val_value = val\<rparr>]\<rparr>)"
  define ps where "ps = array_sort (\<lambda>a b. compare_keys (mk a) (mk b)) M"
  have flat: "flat = foldl (mongo_step ''all'') [] (map mk ps)"
    by (simp add: flat_def translateFromEnvelopeToMongo_def translateFromMongoToEnvelope_def
        Object_entries_def Let_def array_sort_map mk_def ps_def)
  have sps: "set ps = set M" by (simp add: ps_def set_array_sort)
  have dps: "distinct (map fst ps)" using assms(1) by (simp add: ps_def distinct_map_array_sort)
  from foldl_mongo_step [of "[]" ps] dps
  have s: "set flat = {(k, v) \<in> set ps. v \<noteq> []}" and d: "distinct (map fst flat)"
    unfolding flat mk_def by simp_all
  have full: "map_of flat = map_of M \<and> set (Object_keys flat) = set (Object_keys M)"
    if "\<forall>(k, v) \<in> set M. v \<noteq> []"
  proof -
    from that s sps have "set flat = set M" by auto
    then show ?thesis using d assms(1) by (simp add: map_of_inject_set Object_keys_def)
  qed
  show ?thesis using s d full by (simp add: sps)
qed

theorem roundtrip_nonempty_values_witness:
  "translateFromEnvelopeToMongo
     (Some (translateFromMongoToEnvelope (Some [(''b'', ''1''), (''A'', ''2'')]))) (Some ''all'')
     = [(''A'', ''2''), (''b'', ''1'')]
   \<and> map_of (translateFromEnvelopeToMongo
        (Some (translateFromMongoToEnvelope (Some [(''b'', ''1''), (''A'', ''2'')]))) (Some ''all''))
     = map_of [(''b'', ''1''), (''A'', ''2'')]"
proof -
  have h: "distinct (map fst [(''b'', ''1''), (''A'', ''2'')])" by simp
  have e: "translateFromEnvelopeToMongo
     (Some (translateFromMongoToEnvelope (Some [(''b'', ''1''), (''A'', ''2'')]))) (Some ''all'')
     = [(''A'', ''2''), (''b'', ''1'')]" by code_simp
  from roundtrip_nonempty_values [OF h] e show ?thesis by simp
qed

end
